theory Spec2Isabelle
  imports Main
begin

section \<open>Strings and the library operations the downloader relies on\<close>

text \<open>
  A Python \<open>str\<close> is modelled as a \<open>string\<close>: a list of 8-bit characters, each read as
  the code point of the same number (U+0000 to U+00FF). The operations below are the
  builtin string and \<open>re\<close> operations used by \<^verbatim>\<open>onlyfiles-downloader.py\<close>.
\<close>

definition starts_with :: "string \<Rightarrow> string \<Rightarrow> bool" where
  \<comment> \<open>\<^verbatim>\<open>s.startswith(p)\<close>\<close>
  "starts_with p s = (take (length p) s = p)"

fun str_contains :: "string \<Rightarrow> string \<Rightarrow> bool" where
  \<comment> \<open>\<^verbatim>\<open>p in s\<close>: \<open>p\<close> occurs in \<open>s\<close> as a contiguous substring\<close>
  "str_contains p [] = (p = [])"
| "str_contains p (c # cs) = (starts_with p (c # cs) \<or> str_contains p cs)"

fun re_search :: "(string \<Rightarrow> string option) \<Rightarrow> string \<Rightarrow> string option" where
  \<comment> \<open>\<^verbatim>\<open>re.search\<close>: the match at the leftmost position where the pattern matches;
      \<open>m\<close> is the pattern anchored at the start of its argument, returning group 1\<close>
  "re_search m [] = m []"
| "re_search m (c # cs) =
     (case m (c # cs) of Some g \<Rightarrow> Some g | None \<Rightarrow> re_search m cs)"

definition is_hex :: "char \<Rightarrow> bool" where
  \<comment> \<open>the character class \<^verbatim>\<open>[a-f0-9]\<close>\<close>
  "is_hex c = (c \<in> set ''abcdef0123456789'')"

definition hex32 :: "string \<Rightarrow> string option" where
  \<comment> \<open>\<^verbatim>\<open>([a-f0-9]{32})\<close> anchored at the start\<close>
  "hex32 s = (if 32 \<le> length s \<and> list_all is_hex (take 32 s)
              then Some (take 32 s) else None)"

definition ID_PATTERN :: "string \<Rightarrow> string option" where
  \<comment> \<open>line 16: \<^verbatim>\<open>ID_PATTERN = re.compile(r"([a-f0-9]{32})")\<close>\<close>
  "ID_PATTERN = hex32"

definition LINK_PREFIX :: string where
  "LINK_PREFIX = ''https://pillowcase.su/f/''"

definition LINK_PATTERN :: "string \<Rightarrow> string option" where
  \<comment> \<open>line 28: \<^verbatim>\<open>(https://pillowcase\.su/f/[a-f0-9]{32})\<close> anchored at the start\<close>
  "LINK_PATTERN s =
     (if starts_with LINK_PREFIX s \<and> hex32 (drop (length LINK_PREFIX) s) \<noteq> None
      then Some (take (length LINK_PREFIX + 32) s) else None)"

section \<open>URL resolver\<close>

definition unwrap_pillowcase_url :: "string \<Rightarrow> string option" where
  \<comment> \<open>lines 24-32\<close>
  "unwrap_pillowcase_url url =
     (if str_contains ''pillowcase.su/f/'' url then Some url
      else case re_search LINK_PATTERN url of
             Some g \<Rightarrow> Some g
           | None \<Rightarrow> None)"

text \<open>
  \<^verbatim>\<open>str.strip\<close>: drop the characters of a class from both ends. Without an argument
  the class is Python's whitespace, which below U+0100 is U+0009 to U+000D, U+001C to
  U+0020, U+0085 and U+00A0.
\<close>

definition is_space :: "char \<Rightarrow> bool" where
  "is_space c = (c \<in> set [CHR 0x09, CHR 0x0A, CHR 0x0B, CHR 0x0C, CHR 0x0D,
                           CHR 0x1C, CHR 0x1D, CHR 0x1E, CHR 0x1F, CHR 0x20,
                           CHR 0x85, CHR 0xA0])"

definition is_quote :: "char \<Rightarrow> bool" where
  "is_quote c = (c = CHR 0x22)"

definition strip_chars :: "(char \<Rightarrow> bool) \<Rightarrow> string \<Rightarrow> string" where
  "strip_chars P s = rev (dropWhile P (rev (dropWhile P s)))"

text \<open>
  \<^verbatim>\<open>s.split(sep)\<close> for a non-empty separator: the pieces between the occurrences of
  \<open>sep\<close>, found from left to right. (Python raises \<open>ValueError\<close> on an empty separator;
  the program only splits on \<^verbatim>\<open>"filename="\<close>.)
\<close>

function str_split :: "string \<Rightarrow> string \<Rightarrow> string list" where
  "str_split sep [] = [[]]"
| "str_split sep (c # cs) =
     (if sep \<noteq> [] \<and> starts_with sep (c # cs)
      then [] # str_split sep (drop (length sep) (c # cs))
      else (case str_split sep cs of
              [] \<Rightarrow> [[c]]
            | p # ps \<Rightarrow> (c # p) # ps))"
  by pat_completeness auto
termination
  by (relation "measure (\<lambda>(sep, s). length s)") auto

text \<open>\<^verbatim>\<open>os.path.join(a, b)\<close> of \<open>posixpath\<close>, for two components.\<close>

definition path_join :: "string \<Rightarrow> string \<Rightarrow> string" where
  "path_join a b =
     (if starts_with ''/'' b then b
      else if a = [] \<or> last a = CHR ''/'' then a @ b
      else a @ ''/'' @ b)"

text \<open>
  The response headers of \<open>aiohttp\<close> are a case-insensitive multi-dictionary:
  \<^verbatim>\<open>headers.get(k)\<close> is the value of the first entry whose key equals \<open>k\<close> up to the
  case of ASCII letters, or \<open>None\<close>.
\<close>

type_synonym headers = "(string \<times> string) list"

definition lower_char :: "char \<Rightarrow> char" where
  "lower_char c =
     (case map_of (zip ''ABCDEFGHIJKLMNOPQRSTUVWXYZ'' ''abcdefghijklmnopqrstuvwxyz'') c of
        Some d \<Rightarrow> d
      | None \<Rightarrow> c)"

fun headers_get :: "headers \<Rightarrow> string \<Rightarrow> string option" where
  "headers_get [] k = None"
| "headers_get ((k', v) # hs) k =
     (if map lower_char k' = map lower_char k then Some v else headers_get hs k)"

section \<open>The world a run acts on\<close>

text \<open>
  The state outside the program: the files written (path to content), the paths opened
  for writing in order, the directories created, the error log \<^verbatim>\<open>errors.txt\<close> (\<open>None\<close> while
  the file does not exist, else the lines appended to it), the URLs requested in order,
  the number of \<^verbatim>\<open>progress.update(1)\<close> calls, and the lines printed. Printing and
  advancing the progress bar are taken not to raise.
\<close>

record world =
  files :: "string \<rightharpoonup> string"
  opened :: "string list"
  dirs :: "string set"
  error_log :: "string list option"
  requests :: "string list"
  progress :: nat
  stdout :: "string list"

definition log_lines :: "world \<Rightarrow> string list" where
  "log_lines w = (case error_log w of None \<Rightarrow> [] | Some ls \<Rightarrow> ls)"

definition format_record :: "string \<Rightarrow> string \<Rightarrow> string \<Rightarrow> string" where
  \<comment> \<open>line 37: \<^verbatim>\<open>f"{filename}\t{url}\t{reason}\n"\<close>\<close>
  "format_record filename url reason =
     filename @ [CHR 0x09] @ url @ [CHR 0x09] @ reason @ [CHR 0x0A]"

definition log_error ::
  "string option \<Rightarrow> string \<Rightarrow> string \<Rightarrow> string \<Rightarrow> world \<Rightarrow> string + world" where
  \<comment> \<open>lines 35-37: append one line, creating the file if absent. Opening or writing
      \<^verbatim>\<open>errors.txt\<close> can raise: \<open>failure\<close> is the error of this call, if any, then raised
      (\<open>Inl\<close>) with the log as it was\<close>
  "log_error failure filename url reason w =
     (case failure of
        Some e \<Rightarrow> Inl e
      | None \<Rightarrow> Inr (w\<lparr>error_log := Some (log_lines w @ [format_record filename url reason])\<rparr>))"

definition print :: "string \<Rightarrow> world \<Rightarrow> world" where
  "print line w = w\<lparr>stdout := stdout w @ [line]\<rparr>"

text \<open>\<^verbatim>\<open>os.makedirs(p, exist_ok=True)\<close>: the directory and its ancestors exist afterwards.\<close>

definition ancestors :: "string \<Rightarrow> string list" where
  "ancestors p = [take i p. i \<leftarrow> [1..<length p], p ! i = CHR ''/'']"

definition makedirs :: "string \<Rightarrow> world \<Rightarrow> world" where
  "makedirs p w = w\<lparr>dirs := dirs w \<union> set (ancestors p) \<union> {p}\<rparr>"

section \<open>Fetcher and the Download Task\<close>

text \<open>
  What one task observes of the network and the disk. A raised exception is the string
  \<^verbatim>\<open>str(e)\<close> that the handler logs.
  \<^item> \<open>get_result u\<close>: \<^verbatim>\<open>session.get(u)\<close> raises (\<open>Inl\<close>: connection error, timeout) or
    yields a response;
  \<^item> \<open>status_error\<close>: the text of the \<open>ClientResponseError\<close> that
    \<^verbatim>\<open>raise_for_status()\<close> raises when the status is 400 or above;
  \<^item> \<open>chunks\<close>, \<open>stream_error\<close>: the chunks \<^verbatim>\<open>iter_chunked(8192)\<close> yields, and the
    exception it raises after them, if any;
  \<^item> \<open>open_error p\<close>: the error of \<^verbatim>\<open>open(p, "wb")\<close>, if any;
  \<^item> \<open>write_error k\<close>: the error of the \<open>k\<close>-th \<^verbatim>\<open>f_out.write\<close>, if any;
  \<^item> \<open>append_error_try\<close>, \<open>append_error_handler\<close>: the error of the append to
    \<^verbatim>\<open>errors.txt\<close> that \<^verbatim>\<open>log_error\<close> makes inside the \<^verbatim>\<open>try\<close> block (line 53 or 58) and
    inside the \<^verbatim>\<open>except\<close> handler (line 80), if any.
\<close>

record response =
  status :: nat
  status_error :: string
  headers :: headers
  chunks :: "string list"
  stream_error :: "string option"

record task_env =
  get_result :: "string \<Rightarrow> string + response"
  open_error :: "string \<Rightarrow> string option"
  write_error :: "nat \<Rightarrow> string option"
  append_error_try :: "string option"
  append_error_handler :: "string option"

datatype outcome = Completed | Raised string

definition log_and_return ::
  "task_env \<Rightarrow> string \<Rightarrow> string \<Rightarrow> string \<Rightarrow> world \<Rightarrow> outcome \<times> string \<times> world" where
  \<comment> \<open>lines 53-54 and 58-59: \<^verbatim>\<open>log_error(filename, url, reason); return\<close> inside the
      \<^verbatim>\<open>try\<close> block\<close>
  "log_and_return env filename url reason w =
     (case log_error (append_error_try env) filename url reason w of
        Inl e \<Rightarrow> (Raised e, filename, w)
      | Inr w' \<Rightarrow> (Completed, filename, w'))"

definition download_endpoint :: "string \<Rightarrow> string" where
  \<comment> \<open>line 62: \<^verbatim>\<open>f"https://api.pillows.su/api/download/{identifier}"\<close>\<close>
  "download_endpoint identifier = ''https://api.pillows.su/api/download/'' @ identifier"

definition derive_filename :: "headers \<Rightarrow> string \<Rightarrow> string" where
  \<comment> \<open>lines 67-71\<close>
  "derive_filename hs identifier =
     (case headers_get hs ''content-disposition'' of
        None \<Rightarrow> identifier @ ''.bin''
      | Some cd \<Rightarrow>
          if cd \<noteq> [] \<and> str_contains ''filename='' cd
          then strip_chars is_quote (strip_chars is_space (last (str_split ''filename='' cd)))
          else identifier @ ''.bin'')"

fun write_chunks ::
  "(nat \<Rightarrow> string option) \<Rightarrow> nat \<Rightarrow> string \<Rightarrow> string list \<Rightarrow> string option \<Rightarrow>
   (string \<rightharpoonup> string) \<Rightarrow> outcome \<times> (string \<rightharpoonup> string)" where
  \<comment> \<open>lines 76-77: the loop over the body; \<open>k\<close> counts the writes done\<close>
  "write_chunks wr k path [] fin fs =
     (case fin of None \<Rightarrow> (Completed, fs) | Some e \<Rightarrow> (Raised e, fs))"
| "write_chunks wr k path (c # cs) fin fs =
     (case wr k of
        Some e \<Rightarrow> (Raised e, fs)
      | None \<Rightarrow>
          write_chunks wr (Suc k) path cs fin
            (fs(path \<mapsto> (case fs path of None \<Rightarrow> c | Some d \<Rightarrow> d @ c))))"

definition try_block ::
  "task_env \<Rightarrow> string \<Rightarrow> string \<Rightarrow> world \<Rightarrow> outcome \<times> string \<times> world" where
  \<comment> \<open>lines 48-77: how the \<^verbatim>\<open>try\<close> block ends (normally, also by \<^verbatim>\<open>return\<close>, or by an
      exception), the value of \<open>filename\<close> then, and the world\<close>
  "try_block env url output_folder w =
     (let filename = ''unknown'' in
      case unwrap_pillowcase_url url of
        None \<Rightarrow> log_and_return env filename url ''No pillowcase link found'' w
      | Some real_url \<Rightarrow>
          if real_url = []
          then log_and_return env filename url ''No pillowcase link found'' w
          else
            (case re_search ID_PATTERN real_url of
               None \<Rightarrow> log_and_return env filename url ''No file ID found'' w
             | Some identifier \<Rightarrow>
                 let download_url = download_endpoint identifier;
                     w1 = w\<lparr>requests := requests w @ [download_url]\<rparr>
                 in (case get_result env download_url of
                       Inl e \<Rightarrow> (Raised e, filename, w1)
                     | Inr resp \<Rightarrow>
                         if 400 \<le> status resp
                         then (Raised (status_error resp), filename, w1)
                         else
                           let filename = derive_filename (headers resp) identifier;
                               filepath = path_join output_folder filename
                           in (case open_error env filepath of
                                 Some e \<Rightarrow> (Raised e, filename, w1)
                               | None \<Rightarrow>
                                   let (r, fs) =
                                         write_chunks (write_error env) 0 filepath
                                           (chunks resp) (stream_error resp)
                                           ((files w1)(filepath \<mapsto> []))
                                   in (r, filename,
                                       w1\<lparr>files := fs,
                                          opened := opened w1 @ [filepath]\<rparr>)))))"

definition download_file ::
  "task_env \<Rightarrow> string \<Rightarrow> string \<Rightarrow> world \<Rightarrow> outcome \<times> world" where
  \<comment> \<open>lines 48-83, the block guarded by the semaphore: \<^verbatim>\<open>try\<close>, \<^verbatim>\<open>except Exception\<close>,
      \<^verbatim>\<open>finally\<close>. An exception raised by \<^verbatim>\<open>log_error\<close> in the handler leaves the task,
      after the \<^verbatim>\<open>finally\<close> clause has run: the result is how the task ends, and the
      world. Acquiring and releasing the semaphore is the scheduler's \<open>step\<close>.\<close>
  "download_file env url output_folder w =
     (let (r, filename, w1) = try_block env url output_folder w;
          (r2, w2) = (case r of
                        Completed \<Rightarrow> (Completed, w1)
                      | Raised e \<Rightarrow>
                          (case log_error (append_error_handler env) filename url e w1 of
                             Inl e' \<Rightarrow> (Raised e', w1)
                           | Inr w' \<Rightarrow> (Completed, w')))
      in (r2, w2\<lparr>progress := progress w2 + 1\<rparr>))"







section \<open>Scheduler\<close>

text \<open>
  Reading the input file in text mode: \<^verbatim>\<open>\r\n\<close> and \<^verbatim>\<open>\r\<close> are read as \<^verbatim>\<open>\n\<close>, and
  iterating over the file yields the lines, each with its terminator.
\<close>

fun universal_newlines :: "string \<Rightarrow> string" where
  "universal_newlines [] = []"
| "universal_newlines (c # cs) =
     (if c = CHR 0x0D
      then (if starts_with [CHR 0x0A] cs then universal_newlines cs
            else CHR 0x0A # universal_newlines cs)
      else c # universal_newlines cs)"

fun file_lines :: "string \<Rightarrow> string list" where
  "file_lines [] = []"
| "file_lines (c # cs) =
     (if c = CHR 0x0A then [c] # file_lines cs
      else (case file_lines cs of
              [] \<Rightarrow> [[c]]
            | l # ls \<Rightarrow> (c # l) # ls))"

definition parse_urls :: "string \<Rightarrow> string list" where
  \<comment> \<open>lines 19-21, on the content of the input file\<close>
  "parse_urls content =
     [strip_chars is_space line.
        line \<leftarrow> file_lines (universal_newlines content),
        strip_chars is_space line \<noteq> []]"

definition MAX_CONCURRENT_DOWNLOADS :: nat where
  "MAX_CONCURRENT_DOWNLOADS = 15"

definition BASE_DOWNLOAD_FOLDER :: string where
  "BASE_DOWNLOAD_FOLDER = ''downloads''"

text \<open>
  \<^verbatim>\<open>asyncio.gather\<close> over the tasks, all sharing one \<^verbatim>\<open>asyncio.Semaphore\<close>. A task waits
  at \<^verbatim>\<open>async with semaphore\<close> (line 47), holds the semaphore while it is inside the block,
  where alone it issues its request (line 64), and has finished when it left the block,
  normally or by an exception.
  The event loop resumes one task at a time: \<open>step i\<close> lets task \<open>i\<close> go on. A waiting task
  enters the block only if a permit is left, else it keeps waiting; a task inside the block
  runs the block to its end and gives the permit back. The effects of a block on the world
  are recorded when the task leaves it. \<^verbatim>\<open>gather\<close> is called without
  \<^verbatim>\<open>return_exceptions\<close>: the first exception that leaves a task is raised in \<^verbatim>\<open>main\<close>,
  which is left at once, and the tasks that remain are cancelled. From then on (\<open>raised\<close>
  is set) nothing more is recorded: \<open>step\<close> does nothing.
\<close>

datatype task_state = Waiting | Holding | Finished

record sched =
  permits :: nat
  states :: "task_state list"
  sworld :: world
  raised :: "string option"

definition init_sched :: "nat \<Rightarrow> world \<Rightarrow> sched" where
  \<comment> \<open>line 98 and lines 108-117: a fresh semaphore, one task per URL\<close>
  "init_sched n w =
     \<lparr>permits = MAX_CONCURRENT_DOWNLOADS, states = replicate n Waiting, sworld = w,
      raised = None\<rparr>"

definition step ::
  "(nat \<Rightarrow> task_env) \<Rightarrow> string list \<Rightarrow> string \<Rightarrow> nat \<Rightarrow> sched \<Rightarrow> sched" where
  "step envs urls output_folder i s =
     (if raised s \<noteq> None then s
      else if i < length (states s) then
        (case states s ! i of
           Waiting \<Rightarrow>
             if 0 < permits s
             then s\<lparr>permits := permits s - 1, states := (states s)[i := Holding]\<rparr>
             else s
         | Holding \<Rightarrow>
             (let (r, w') = download_file (envs i) (urls ! i) output_folder (sworld s)
              in s\<lparr>permits := permits s + 1,
                   states := (states s)[i := Finished],
                   sworld := w',
                   raised := (case r of Completed \<Rightarrow> None | Raised e \<Rightarrow> Some e)\<rparr>)
         | Finished \<Rightarrow> s)
      else s)"

fun exec ::
  "(nat \<Rightarrow> task_env) \<Rightarrow> string list \<Rightarrow> string \<Rightarrow> nat list \<Rightarrow> sched \<Rightarrow> sched" where
  "exec envs urls output_folder [] s = s"
| "exec envs urls output_folder (i # is) s =
     exec envs urls output_folder is (step envs urls output_folder i s)"

text \<open>
  \<^verbatim>\<open>gather\<close> returns when every task has finished, or raises the first exception that
  leaves a task. Whatever order the event loop followed first (\<open>schedule\<close>), the tasks still
  inside the block then leave it and every task still waiting takes its turn.
\<close>

definition drain_schedule :: "task_state list \<Rightarrow> nat list" where
  "drain_schedule st =
     [i \<leftarrow> [0..<length st]. st ! i = Holding] @ concat (map (\<lambda>i. [i, i]) [0..<length st])"

definition gather_schedule ::
  "(nat \<Rightarrow> task_env) \<Rightarrow> string list \<Rightarrow> string \<Rightarrow> nat list \<Rightarrow> world \<Rightarrow> nat list" where
  "gather_schedule envs urls output_folder schedule w =
     schedule @
     drain_schedule (states (exec envs urls output_folder schedule
                                (init_sched (length urls) w)))"

definition gather ::
  "(nat \<Rightarrow> task_env) \<Rightarrow> string list \<Rightarrow> string \<Rightarrow> nat list \<Rightarrow> world \<Rightarrow> sched" where
  "gather envs urls output_folder schedule w =
     exec envs urls output_folder (gather_schedule envs urls output_folder schedule w)
       (init_sched (length urls) w)"

text \<open>
  What a run observes: the content of \<^verbatim>\<open>onlyfiles.txt\<close> (\<open>Inl\<close>: opening or reading it
  raises), the formatted start time, the error of \<^verbatim>\<open>os.makedirs\<close> if any, what each task
  observes, the order in which the event loop resumes the tasks, and the formatted elapsed
  time. The pictographs that open the three summary lines lie outside the characters of
  this model and are left out of the printed text.
\<close>

record run_env =
  input_file :: "string + string"
  timestamp :: string
  makedirs_error :: "string option"
  task_envs :: "nat \<Rightarrow> task_env"
  schedule :: "nat list"
  elapsed :: string

definition main :: "run_env \<Rightarrow> world \<Rightarrow> string + world" where
  \<comment> \<open>lines 86-127; \<open>Inl\<close> is an exception that ends the run\<close>
  "main renv w =
     (case input_file renv of
        Inl e \<Rightarrow> Inl e
      | Inr content \<Rightarrow>
          let urls = parse_urls content;
              total_files = length urls
          in if total_files = 0 then Inr (print ''No URLs found.'' w)
             else
               let output_folder = path_join BASE_DOWNLOAD_FOLDER (timestamp renv)
               in (case makedirs_error renv of
                     Some e \<Rightarrow> Inl e
                   | None \<Rightarrow>
                       let w1 = makedirs output_folder w;
                           s = gather (task_envs renv) urls output_folder
                                 (schedule renv) w1
                       in (case raised s of
                             Some e \<Rightarrow> Inl e
                           | None \<Rightarrow>
                               let w2 = sworld s;
                                   w3 = print '' All done!'' (print [] w2);
                                   w4 = print ('' Files saved in: '' @ output_folder) w3;
                                   w5 = print ('' Total runtime: '' @ elapsed renv @
                                                 '' seconds'') w4
                               in Inr (if error_log w5 \<noteq> None
                                       then print ('' Errors logged to: errors.txt'') w5
                                       else w5))))"

section \<open>Concrete inputs\<close>

text \<open>
  The inputs of the scenarios: a canonical link, a line without any link, a link without
  identifier; an empty world; a server that answers with a named file, one whose
  connection drops after the first chunk, one that names no file, one that names a
  file by an absolute path, and one that answers 404.
\<close>

definition url_plain :: string where
  "url_plain = ''https://pillowcase.su/f/deadbeefdeadbeefdeadbeefdeadbeef''"

definition url_junk :: string where
  "url_junk = ''not a valid url at all''"

definition url_short :: string where
  "url_short = ''https://pillowcase.su/f/abc''"

definition world_empty :: world where
  "world_empty =
     \<lparr>files = Map.empty, opened = [], dirs = {}, error_log = None, requests = [],
      progress = 0, stdout = []\<rparr>"

definition resp_song :: response where
  "resp_song =
     \<lparr>status = 200, status_error = [],
      headers = [(''Content-Disposition'', ''attachment; filename='' @ [CHR 0x22] @
                    ''song.mp3'' @ [CHR 0x22])],
      chunks = [''abc'', ''de''], stream_error = None\<rparr>"

definition resp_cut :: response where
  "resp_cut = resp_song\<lparr>chunks := [''abc''], stream_error := Some ''Connection reset''\<rparr>"

definition resp_bare :: response where
  "resp_bare = resp_song\<lparr>headers := [(''Content-Type'', ''audio/mpeg'')]\<rparr>"

definition resp_404 :: response where
  "resp_404 =
     \<lparr>status = 404, status_error = ''404, message=Not Found'', headers = [],
      chunks = [], stream_error = None\<rparr>"

definition resp_abs :: response where
  "resp_abs = resp_song\<lparr>headers := [(''content-disposition'', ''filename=/etc/cron.d/x'')]\<rparr>"

definition env_of :: "response \<Rightarrow> task_env" where
  "env_of resp =
     \<lparr>get_result = (\<lambda>u. Inr resp), open_error = (\<lambda>p. None), write_error = (\<lambda>k. None),
      append_error_try = None, append_error_handler = None\<rparr>"

text \<open>The same server, with an error log that cannot be appended to.\<close>

definition env_unloggable :: "response \<Rightarrow> task_env" where
  "env_unloggable resp =
     (env_of resp)\<lparr>append_error_try := Some ''Permission denied'',
                   append_error_handler := Some ''Permission denied''\<rparr>"

text \<open>
  An input file of five lines, two of them blank, and a run over a given input file with a
  given order of resumption, in which every request is answered with the named file.
\<close>

definition input_mixed :: string where
  "input_mixed =
     url_plain @ [CHR 0x0A] @ ''  '' @ [CHR 0x0D, CHR 0x0A] @ url_junk @ [CHR 0x0A] @
     [CHR 0x0A] @ '' '' @ url_short @ ''  ''"

definition run_of :: "string \<Rightarrow> nat list \<Rightarrow> run_env" where
  "run_of content sch =
     \<lparr>input_file = Inr content, timestamp = ''2026-01-01_00-00-00'',
      makedirs_error = None, task_envs = (\<lambda>i. env_of resp_song), schedule = sch,
      elapsed = ''0.00''\<rparr>"


definition input_two :: string where
  "input_two = url_plain @ [CHR 0x0A] @ url_plain @ [CHR 0x0A]"

definition run_unloggable :: run_env where
  "run_unloggable =
     (run_of input_two [0, 1, 0])\<lparr>task_envs := (\<lambda>i. env_unloggable resp_404)\<rparr>"

section \<open>Facts about the string operations\<close>

lemma starts_with_iff: "starts_with p s \<longleftrightarrow> (\<exists>post. s = p @ post)"
proof
  assume "starts_with p s"
  then have "s = p @ drop (length p) s"
    unfolding starts_with_def by (metis append_take_drop_id)
  then show "\<exists>post. s = p @ post" ..
next
  assume "\<exists>post. s = p @ post"
  then show "starts_with p s"
    unfolding starts_with_def by auto
qed

lemma str_contains_iff: "str_contains p s \<longleftrightarrow> (\<exists>pre post. s = pre @ p @ post)"
proof (induction s)
  case Nil
  show ?case by auto
next
  case (Cons c cs)
  show ?case
  proof
    assume "str_contains p (c # cs)"
    then consider "starts_with p (c # cs)" | "str_contains p cs" by auto
    then show "\<exists>pre post. c # cs = pre @ p @ post"
    proof cases
      case 1
      then obtain post where "c # cs = p @ post"
        using starts_with_iff by blast
      then have "c # cs = [] @ p @ post" by simp
      then show ?thesis by blast
    next
      case 2
      then obtain pre post where "cs = pre @ p @ post"
        using Cons.IH by blast
      then have "c # cs = (c # pre) @ p @ post" by simp
      then show ?thesis by blast
    qed
  next
    assume "\<exists>pre post. c # cs = pre @ p @ post"
    then obtain pre post where eq: "c # cs = pre @ p @ post" by blast
    show "str_contains p (c # cs)"
    proof (cases pre)
      case Nil
      with eq have "starts_with p (c # cs)"
        using starts_with_iff by auto
      then show ?thesis by simp
    next
      case (Cons d pre')
      with eq have "cs = pre' @ p @ post" by simp
      then have "str_contains p cs"
        using Cons.IH by blast
      then show ?thesis by simp
    qed
  qed
qed

lemma re_search_Some_suffix:
  "re_search m s = Some g \<Longrightarrow> \<exists>pre t. s = pre @ t \<and> m t = Some g"
proof (induction s)
  case Nil
  then show ?case by simp
next
  case (Cons c cs)
  show ?case
  proof (cases "m (c # cs)")
    case None
    with Cons.prems have "re_search m cs = Some g" by simp
    then obtain pre t where "cs = pre @ t" "m t = Some g"
      using Cons.IH by blast
    then have "c # cs = (c # pre) @ t \<and> m t = Some g" by simp
    then show ?thesis by blast
  next
    case (Some h)
    with Cons.prems have "c # cs = [] @ (c # cs) \<and> m (c # cs) = Some g" by simp
    then show ?thesis by blast
  qed
qed

lemma re_search_finds:
  "m t \<noteq> None \<Longrightarrow> re_search m (pre @ t) \<noteq> None"
proof (induction pre)
  case Nil
  then show ?case by (cases t) auto
next
  case (Cons c pre)
  then show ?case by (auto split: option.splits)
qed

lemma re_search_None_iff:
  "re_search m s = None \<longleftrightarrow> (\<forall>pre t. s = pre @ t \<longrightarrow> m t = None)"
proof
  assume "re_search m s = None"
  then show "\<forall>pre t. s = pre @ t \<longrightarrow> m t = None"
    using re_search_finds by blast
next
  assume "\<forall>pre t. s = pre @ t \<longrightarrow> m t = None"
  then show "re_search m s = None"
    using re_search_Some_suffix by (metis option.exhaust option.distinct(1))
qed

section \<open>Facts about the two patterns\<close>

lemma hex32_Some:
  "hex32 s = Some g \<longleftrightarrow> (\<exists>rest. s = g @ rest \<and> length g = 32 \<and> list_all is_hex g)"
proof
  assume "hex32 s = Some g"
  then have a: "32 \<le> length s" "list_all is_hex (take 32 s)" "g = take 32 s"
    unfolding hex32_def by (auto split: if_splits)
  then have "s = g @ drop 32 s \<and> length g = 32 \<and> list_all is_hex g"
    by simp
  then show "\<exists>rest. s = g @ rest \<and> length g = 32 \<and> list_all is_hex g" ..
next
  assume "\<exists>rest. s = g @ rest \<and> length g = 32 \<and> list_all is_hex g"
  then show "hex32 s = Some g"
    unfolding hex32_def by auto
qed

lemma LINK_PATTERN_Some:
  "LINK_PATTERN t = Some g \<Longrightarrow>
     \<exists>h rest. t = LINK_PREFIX @ h @ rest \<and> g = LINK_PREFIX @ h \<and>
              length h = 32 \<and> list_all is_hex h"
proof -
  assume m: "LINK_PATTERN t = Some g"
  then have sw: "starts_with LINK_PREFIX t"
    and hx: "hex32 (drop (length LINK_PREFIX) t) \<noteq> None"
    and g: "g = take (length LINK_PREFIX + 32) t"
    unfolding LINK_PATTERN_def by (auto split: if_splits)
  from sw obtain post where t: "t = LINK_PREFIX @ post"
    using starts_with_iff by blast
  from hx t obtain h where "hex32 post = Some h" by auto
  then obtain rest where h: "post = h @ rest" "length h = 32" "list_all is_hex h"
    using hex32_Some by blast
  from g t h have "g = LINK_PREFIX @ h" by simp
  with t h show ?thesis by blast
qed

lemma ID_PATTERN_of_link:
  assumes "length h = 32" "list_all is_hex h"
  shows "re_search ID_PATTERN (LINK_PREFIX @ h) = Some h"
proof -
  have "hex32 h = Some h"
    using assms hex32_Some [of h h] by simp
  then have "re_search hex32 h = Some h"
    by (cases h) auto
  then show ?thesis
    by (simp add: LINK_PREFIX_def ID_PATTERN_def hex32_def is_hex_def)
qed

lemma embedded_link_contains_segment:
  assumes "re_search LINK_PATTERN url = Some g"
  shows "str_contains ''pillowcase.su/f/'' url"
proof -
  from assms obtain pre t where u: "url = pre @ t" and m: "LINK_PATTERN t = Some g"
    using re_search_Some_suffix by blast
  from m obtain h rest where "t = LINK_PREFIX @ h @ rest"
    using LINK_PATTERN_Some by blast
  with u have "url = (pre @ ''https://'') @ ''pillowcase.su/f/'' @ (h @ rest)"
    by (simp add: LINK_PREFIX_def)
  then show ?thesis
    using str_contains_iff by blast
qed

lemma embedded_link_has_id:
  assumes "re_search LINK_PATTERN url = Some g"
  shows "re_search ID_PATTERN url \<noteq> None"
proof -
  from assms obtain pre t where u: "url = pre @ t" and m: "LINK_PATTERN t = Some g"
    using re_search_Some_suffix by blast
  from m obtain h rest where t: "t = LINK_PREFIX @ h @ rest"
    and h: "length h = 32" "list_all is_hex h"
    using LINK_PATTERN_Some by blast
  have "hex32 (h @ rest) = Some h"
    using h hex32_Some by blast
  then have "ID_PATTERN (h @ rest) \<noteq> None"
    by (simp add: ID_PATTERN_def)
  then have "re_search ID_PATTERN ((pre @ LINK_PREFIX) @ (h @ rest)) \<noteq> None"
    by (rule re_search_finds)
  with u t show ?thesis by simp
qed

lemma extraction_branch_unreachable:
  "\<not> str_contains ''pillowcase.su/f/'' url \<Longrightarrow> re_search LINK_PATTERN url = None"
  using embedded_link_contains_segment by (cases "re_search LINK_PATTERN url") auto

section \<open>Facts about the Download Task\<close>



lemma log_error_None:
  "log_error None f u r w =
     Inr (w\<lparr>error_log := Some (log_lines w @ [format_record f u r])\<rparr>)"
  by (simp add: log_error_def)

lemma log_error_Some: "log_error (Some e) f u r w = Inl e"
  by (simp add: log_error_def)

lemma log_and_return_ok:
  "append_error_try env = None \<Longrightarrow>
   log_and_return env f u r w =
     (Completed, f, w\<lparr>error_log := Some (log_lines w @ [format_record f u r])\<rparr>)"
  by (simp add: log_and_return_def log_error_None)

lemma log_and_return_fails:
  "append_error_try env = Some e \<Longrightarrow> log_and_return env f u r w = (Raised e, f, w)"
  by (simp add: log_and_return_def log_error_Some)



lemma try_block_unresolved:
  assumes "unwrap_pillowcase_url url = None \<or> unwrap_pillowcase_url url = Some []"
  shows "try_block env url folder w =
           log_and_return env ''unknown'' url ''No pillowcase link found'' w"
  using assms by (auto simp: try_block_def Let_def)

lemma try_block_no_id:
  assumes "unwrap_pillowcase_url url = Some real_url" "real_url \<noteq> []"
    and "re_search ID_PATTERN real_url = None"
  shows "try_block env url folder w =
           log_and_return env ''unknown'' url ''No file ID found'' w"
  using assms by (simp add: try_block_def Let_def)

lemma try_block_get_raises:
  assumes "unwrap_pillowcase_url url = Some real_url" "real_url \<noteq> []"
    and "re_search ID_PATTERN real_url = Some identifier"
    and "get_result env (download_endpoint identifier) = Inl e"
  shows "try_block env url folder w =
           (Raised e, ''unknown'',
            w\<lparr>requests := requests w @ [download_endpoint identifier]\<rparr>)"
  using assms by (simp add: try_block_def Let_def)

lemma try_block_bad_status:
  assumes "unwrap_pillowcase_url url = Some real_url" "real_url \<noteq> []"
    and "re_search ID_PATTERN real_url = Some identifier"
    and "get_result env (download_endpoint identifier) = Inr resp"
    and "400 \<le> status resp"
  shows "try_block env url folder w =
           (Raised (status_error resp), ''unknown'',
            w\<lparr>requests := requests w @ [download_endpoint identifier]\<rparr>)"
  using assms by (simp add: try_block_def Let_def)

lemma try_block_open_fails:
  assumes "unwrap_pillowcase_url url = Some real_url" "real_url \<noteq> []"
    and "re_search ID_PATTERN real_url = Some identifier"
    and "get_result env (download_endpoint identifier) = Inr resp"
    and "status resp < 400"
    and "open_error env (path_join folder (derive_filename (headers resp) identifier)) = Some e"
  shows "try_block env url folder w =
           (Raised e, derive_filename (headers resp) identifier,
            w\<lparr>requests := requests w @ [download_endpoint identifier]\<rparr>)"
  using assms by (simp add: try_block_def Let_def)

lemma try_block_stream:
  assumes "unwrap_pillowcase_url url = Some real_url" "real_url \<noteq> []"
    and "re_search ID_PATTERN real_url = Some identifier"
    and "get_result env (download_endpoint identifier) = Inr resp"
    and "status resp < 400"
    and "open_error env (path_join folder (derive_filename (headers resp) identifier)) = None"
    and "write_chunks (write_error env) 0
           (path_join folder (derive_filename (headers resp) identifier))
           (chunks resp) (stream_error resp)
           ((files w)(path_join folder (derive_filename (headers resp) identifier) \<mapsto> []))
         = (r, fs)"
  shows "try_block env url folder w =
           (r, derive_filename (headers resp) identifier,
            w\<lparr>requests := requests w @ [download_endpoint identifier],
              files := fs,
              opened := opened w @
                [path_join folder (derive_filename (headers resp) identifier)]\<rparr>)"
  using assms by (simp add: try_block_def Let_def)

lemma download_file_Completed:
  "try_block env url folder w = (Completed, fn, w1) \<Longrightarrow>
   download_file env url folder w = (Completed, w1\<lparr>progress := progress w1 + 1\<rparr>)"
  by (simp add: download_file_def)

lemma download_file_logged:
  "try_block env url folder w = (Raised e, fn, w1) \<Longrightarrow> append_error_handler env = None \<Longrightarrow>
   download_file env url folder w =
     (Completed, w1\<lparr>error_log := Some (log_lines w1 @ [format_record fn url e]),
                    progress := progress w1 + 1\<rparr>)"
  by (simp add: download_file_def log_error_None)

lemma download_file_unlogged:
  "try_block env url folder w = (Raised e, fn, w1) \<Longrightarrow>
   append_error_handler env = Some e' \<Longrightarrow>
   download_file env url folder w = (Raised e', w1\<lparr>progress := progress w1 + 1\<rparr>)"
  by (simp add: download_file_def log_error_Some)

text \<open>A task whose handler can append to the error log never raises.\<close>

lemma download_file_never_raises:
  assumes "append_error_handler env = None"
  shows "fst (download_file env url folder w) = Completed"
proof -
  obtain r fn w1 where tb: "try_block env url folder w = (r, fn, w1)"
    by (cases "try_block env url folder w") auto
  show ?thesis
  proof (cases r)
    case Completed
    with tb show ?thesis by (simp add: download_file_Completed)
  next
    case (Raised e)
    with tb assms show ?thesis by (simp add: download_file_logged)
  qed
qed

lemma unwrap_nonempty:
  "unwrap_pillowcase_url url = Some real_url \<Longrightarrow> real_url \<noteq> []"
proof -
  assume u: "unwrap_pillowcase_url url = Some real_url"
  show "real_url \<noteq> []"
  proof (cases "str_contains ''pillowcase.su/f/'' url")
    case True
    with u have "real_url = url" by (simp add: unwrap_pillowcase_url_def)
    moreover from True have "url \<noteq> []" by auto
    ultimately show ?thesis by simp
  next
    case False
    with u have "re_search LINK_PATTERN url = Some real_url"
      by (simp add: unwrap_pillowcase_url_def split: option.splits)
    then obtain pre t where "LINK_PATTERN t = Some real_url"
      using re_search_Some_suffix by blast
    then obtain h where "real_url = LINK_PREFIX @ h"
      using LINK_PATTERN_Some by blast
    then show ?thesis by (simp add: LINK_PREFIX_def)
  qed
qed

lemma download_file_early:
  assumes "try_block env url folder w = log_and_return env ''unknown'' url reason w"
  shows "download_file env url folder w =
           (case append_error_try env of
              None \<Rightarrow>
                (Completed,
                 w\<lparr>error_log := Some (log_lines w @ [format_record ''unknown'' url reason]),
                   progress := progress w + 1\<rparr>)
            | Some e \<Rightarrow>
                (case append_error_handler env of
                   None \<Rightarrow>
                     (Completed,
                      w\<lparr>error_log := Some (log_lines w @ [format_record ''unknown'' url e]),
                        progress := progress w + 1\<rparr>)
                 | Some e' \<Rightarrow> (Raised e', w\<lparr>progress := progress w + 1\<rparr>)))"
proof (cases "append_error_try env")
  case None
  with assms show ?thesis
    by (simp add: log_and_return_ok download_file_Completed)
next
  case (Some e)
  with assms have tb: "try_block env url folder w = (Raised e, ''unknown'', w)"
    by (simp add: log_and_return_fails)
  show ?thesis
  proof (cases "append_error_handler env")
    case None
    with Some show ?thesis by (simp add: download_file_logged [OF tb])
  next
    case (Some e')
    with \<open>append_error_try env = Some e\<close> show ?thesis
      by (simp add: download_file_unlogged [OF tb])
  qed
qed

lemmas download_file_unresolved = download_file_early [OF try_block_unresolved]

lemma download_file_no_id:
  assumes "unwrap_pillowcase_url url = Some real_url"
    and "re_search ID_PATTERN real_url = None"
  shows "download_file env url folder w =
           (case append_error_try env of
              None \<Rightarrow>
                (Completed,
                 w\<lparr>error_log :=
                      Some (log_lines w @ [format_record ''unknown'' url ''No file ID found'']),
                   progress := progress w + 1\<rparr>)
            | Some e \<Rightarrow>
                (case append_error_handler env of
                   None \<Rightarrow>
                     (Completed,
                      w\<lparr>error_log := Some (log_lines w @ [format_record ''unknown'' url e]),
                        progress := progress w + 1\<rparr>)
                 | Some e' \<Rightarrow> (Raised e', w\<lparr>progress := progress w + 1\<rparr>)))"
  by (rule download_file_early
      [OF try_block_no_id [OF assms(1) unwrap_nonempty [OF assms(1)] assms(2)]])

lemma download_file_bad_status:
  assumes "unwrap_pillowcase_url url = Some real_url"
    and "re_search ID_PATTERN real_url = Some identifier"
    and "get_result env (download_endpoint identifier) = Inr resp"
    and "400 \<le> status resp"
  shows "download_file env url folder w =
           (case append_error_handler env of
              None \<Rightarrow>
                (Completed,
                 w\<lparr>error_log :=
                      Some (log_lines w @ [format_record ''unknown'' url (status_error resp)]),
                   requests := requests w @ [download_endpoint identifier],
                   progress := progress w + 1\<rparr>)
            | Some e' \<Rightarrow>
                (Raised e',
                 w\<lparr>requests := requests w @ [download_endpoint identifier],
                   progress := progress w + 1\<rparr>))"
proof -
  note tb = try_block_bad_status [OF assms(1) unwrap_nonempty [OF assms(1)] assms(2-4)]
  show ?thesis
  proof (cases "append_error_handler env")
    case None
    then show ?thesis
      by (simp add: download_file_logged [OF tb] log_lines_def)
  next
    case (Some e')
    then show ?thesis
      by (simp add: download_file_unlogged [OF tb])
  qed
qed

subsection \<open>The two outcomes\<close>








subsection \<open>The scenarios evaluated\<close>

lemma eval_plain:
  "unwrap_pillowcase_url url_plain = Some url_plain"
  "re_search ID_PATTERN url_plain = Some ''deadbeefdeadbeefdeadbeefdeadbeef''"
  by (simp_all add: unwrap_pillowcase_url_def url_plain_def starts_with_def
      ID_PATTERN_def hex32_def is_hex_def)

lemma eval_song_name:
  "derive_filename (headers resp_song) ident = ''song.mp3''"
  "derive_filename (headers resp_cut) ident = ''song.mp3''"
  by (simp_all add: resp_song_def resp_cut_def derive_filename_def lower_char_def
      starts_with_def strip_chars_def is_space_def is_quote_def)

lemma eval_abs_name:
  "derive_filename (headers resp_abs) ident = ''/etc/cron.d/x''"
  by (simp add: resp_song_def resp_abs_def derive_filename_def lower_char_def
      starts_with_def strip_chars_def is_space_def is_quote_def)

lemma eval_junk:
  "\<not> str_contains ''pillowcase.su/f/'' url_junk"
  "re_search LINK_PATTERN url_junk = None"
  "unwrap_pillowcase_url url_junk = None"
  by (simp_all add: unwrap_pillowcase_url_def url_junk_def starts_with_def
      LINK_PATTERN_def LINK_PREFIX_def)

lemma eval_short:
  "unwrap_pillowcase_url url_short = Some url_short"
  "re_search ID_PATTERN url_short = None"
  by (simp_all add: unwrap_pillowcase_url_def url_short_def starts_with_def
      ID_PATTERN_def hex32_def)

lemma eval_envs:
  "get_result (env_of resp) u = Inr resp"
  "open_error (env_of resp) p = None"
  "write_error (env_of resp) k = None"
  "append_error_try (env_of resp) = None"
  "append_error_handler (env_of resp) = None"
  "get_result (env_unloggable resp) u = Inr resp"
  "open_error (env_unloggable resp) p = None"
  "write_error (env_unloggable resp) k = None"
  "append_error_try (env_unloggable resp) = Some ''Permission denied''"
  "append_error_handler (env_unloggable resp) = Some ''Permission denied''"
  by (simp_all add: env_of_def env_unloggable_def)

lemma eval_world_empty:
  "files world_empty = Map.empty" "opened world_empty = []" "dirs world_empty = {}"
  "error_log world_empty = None" "log_lines world_empty = []" "requests world_empty = []"
  "progress world_empty = 0" "stdout world_empty = []"
  by (simp_all add: world_empty_def log_lines_def)


lemma eval_abs:
  "download_file (env_of resp_abs) url_plain ''downloads/run'' world_empty =
     (Completed,
      world_empty\<lparr>
        files := [''/etc/cron.d/x'' \<mapsto> ''abcde''],
        opened := [''/etc/cron.d/x''],
        requests := [download_endpoint ''deadbeefdeadbeefdeadbeefdeadbeef''],
        progress := 1\<rparr>)"
proof -
  have st: "status resp_abs < 400"
    by (simp add: resp_abs_def resp_song_def)
  have pj: "path_join ''downloads/run'' ''/etc/cron.d/x'' = ''/etc/cron.d/x''"
    by (simp add: path_join_def starts_with_def)
  have wc: "write_chunks (write_error (env_of resp_abs)) 0
              (path_join ''downloads/run''
                 (derive_filename (headers resp_abs) ''deadbeefdeadbeefdeadbeefdeadbeef''))
              (chunks resp_abs) (stream_error resp_abs)
              ((files world_empty)
                 (path_join ''downloads/run''
                    (derive_filename (headers resp_abs) ''deadbeefdeadbeefdeadbeefdeadbeef'')
                  \<mapsto> []))
            = (Completed, [''/etc/cron.d/x'' \<mapsto> ''abcde''])"
    by (simp only: eval_abs_name pj)
      (simp add: eval_envs resp_abs_def resp_song_def world_empty_def)
  show ?thesis
    using download_file_Completed
      [OF try_block_stream [OF eval_plain(1) unwrap_nonempty [OF eval_plain(1)]
            eval_plain(2) eval_envs(1) st eval_envs(2) wc]]
    by (simp add: eval_abs_name pj world_empty_def)
qed



subsection \<open>What the two searches find\<close>

lemma LINK_PATTERN_embedded:
  assumes "length h = 32" "list_all is_hex h"
  shows "LINK_PATTERN (LINK_PREFIX @ h @ post) = Some (LINK_PREFIX @ h)"
proof -
  have "hex32 (h @ post) = Some h"
    using assms hex32_Some by blast
  then show ?thesis
    using assms by (simp add: LINK_PATTERN_def starts_with_def)
qed

lemma re_search_link_None_iff:
  "re_search LINK_PATTERN url = None \<longleftrightarrow>
     \<not> (\<exists>pre h post. url = pre @ LINK_PREFIX @ h @ post \<and> length h = 32 \<and> list_all is_hex h)"
proof
  assume n: "re_search LINK_PATTERN url = None"
  show "\<not> (\<exists>pre h post. url = pre @ LINK_PREFIX @ h @ post \<and> length h = 32 \<and>
            list_all is_hex h)"
  proof
    assume "\<exists>pre h post. url = pre @ LINK_PREFIX @ h @ post \<and> length h = 32 \<and>
              list_all is_hex h"
    then obtain pre h post where u: "url = pre @ LINK_PREFIX @ h @ post"
      and h: "length h = 32" "list_all is_hex h" by blast
    have "LINK_PATTERN (LINK_PREFIX @ h @ post) \<noteq> None"
      using LINK_PATTERN_embedded [OF h] by simp
    then have "re_search LINK_PATTERN (pre @ LINK_PREFIX @ h @ post) \<noteq> None"
      by (rule re_search_finds)
    with n u show False by simp
  qed
next
  assume a: "\<not> (\<exists>pre h post. url = pre @ LINK_PREFIX @ h @ post \<and> length h = 32 \<and>
               list_all is_hex h)"
  show "re_search LINK_PATTERN url = None"
  proof (cases "re_search LINK_PATTERN url")
    case None
    then show ?thesis .
  next
    case (Some g)
    then obtain pre t where u: "url = pre @ t" and m: "LINK_PATTERN t = Some g"
      using re_search_Some_suffix by blast
    from m obtain h rest where "t = LINK_PREFIX @ h @ rest" "length h = 32" "list_all is_hex h"
      using LINK_PATTERN_Some by blast
    with u a show ?thesis by blast
  qed
qed

lemma ID_PATTERN_Some:
  assumes "re_search ID_PATTERN s = Some i"
  shows "length i = 32" "list_all is_hex i" "str_contains i s"
proof -
  from assms obtain pre t where s: "s = pre @ t" and m: "hex32 t = Some i"
    using re_search_Some_suffix [of ID_PATTERN s i] by (auto simp: ID_PATTERN_def)
  from m obtain rest where t: "t = i @ rest" and i: "length i = 32" "list_all is_hex i"
    using hex32_Some by blast
  show "length i = 32" "list_all is_hex i" by (fact i)+
  from s t have "s = pre @ i @ rest" by simp
  then show "str_contains i s"
    using str_contains_iff by blast
qed

lemma ID_PATTERN_None_iff:
  "re_search ID_PATTERN s = None \<longleftrightarrow>
     \<not> (\<exists>pre h post. s = pre @ h @ post \<and> length h = 32 \<and> list_all is_hex h)"
proof -
  have "(\<forall>pre t. s = pre @ t \<longrightarrow> hex32 t = None) \<longleftrightarrow>
        \<not> (\<exists>pre h post. s = pre @ h @ post \<and> length h = 32 \<and> list_all is_hex h)"
  proof
    assume a: "\<forall>pre t. s = pre @ t \<longrightarrow> hex32 t = None"
    show "\<not> (\<exists>pre h post. s = pre @ h @ post \<and> length h = 32 \<and> list_all is_hex h)"
    proof
      assume "\<exists>pre h post. s = pre @ h @ post \<and> length h = 32 \<and> list_all is_hex h"
      then obtain pre h post where "s = pre @ h @ post" "length h = 32" "list_all is_hex h"
        by blast
      moreover from this have "hex32 (h @ post) = Some h"
        using hex32_Some by blast
      ultimately show False using a by force
    qed
  next
    assume b: "\<not> (\<exists>pre h post. s = pre @ h @ post \<and> length h = 32 \<and> list_all is_hex h)"
    show "\<forall>pre t. s = pre @ t \<longrightarrow> hex32 t = None"
    proof (intro allI impI)
      fix pre t
      assume s: "s = pre @ t"
      show "hex32 t = None"
      proof (cases "hex32 t")
        case None
        then show ?thesis .
      next
        case (Some g)
        then obtain rest where "t = g @ rest" "length g = 32" "list_all is_hex g"
          using hex32_Some by blast
        with s b show ?thesis by blast
      qed
    qed
  qed
  then show ?thesis
    using re_search_None_iff [of ID_PATTERN s] by (simp add: ID_PATTERN_def)
qed

subsection \<open>Splitting, stripping and the derived filename\<close>

lemma str_split_nonempty: "str_split sep s \<noteq> []"
  by (induction sep s rule: str_split.induct) (auto split: list.splits)

lemma str_split_no_occurrence:
  "\<not> str_contains sep s \<Longrightarrow> str_split sep s = [s]"
  by (induction s) auto

lemma str_split_single:
  "sep \<noteq> [] \<Longrightarrow> str_split sep s = [p] \<Longrightarrow> p = s \<and> \<not> str_contains sep s"
proof (induction s arbitrary: p)
  case Nil
  then show ?case by simp
next
  case (Cons c cs)
  show ?case
  proof (cases "starts_with sep (c # cs)")
    case True
    with Cons.prems str_split_nonempty [of sep "drop (length sep) (c # cs)"]
    show ?thesis by simp
  next
    case False
    with Cons.prems str_split_nonempty [of sep cs]
    obtain p' where "str_split sep cs = [p']" "p = c # p'"
      by (auto split: list.splits)
    with Cons.IH [OF Cons.prems(1)] False show ?thesis by simp
  qed
qed

lemma last_str_split_no_sep:
  "sep \<noteq> [] \<Longrightarrow> \<not> str_contains sep (last (str_split sep s))"
proof (induction sep s rule: str_split.induct)
  case (1 sep)
  then show ?case by simp
next
  case (2 sep c cs)
  show ?case
  proof (cases "starts_with sep (c # cs)")
    case True
    with 2 str_split_nonempty [of sep "drop (length sep) (c # cs)"]
    show ?thesis by simp
  next
    case False
    obtain p ps where sp: "str_split sep cs = p # ps"
      using str_split_nonempty [of sep cs] by (cases "str_split sep cs") auto
    show ?thesis
    proof (cases ps)
      case Nil
      with sp str_split_single [OF 2(3), of cs p] False
      show ?thesis by simp
    next
      case (Cons q qs)
      with sp 2 False show ?thesis by simp
    qed
  qed
qed

lemma last_str_split_suffix:
  "sep \<noteq> [] \<Longrightarrow> str_contains sep s \<Longrightarrow> \<exists>pre. s = pre @ sep @ last (str_split sep s)"
proof (induction sep s rule: str_split.induct)
  case (1 sep)
  then show ?case by simp
next
  case (2 sep c cs)
  show ?case
  proof (cases "starts_with sep (c # cs)")
    case True
    define rest where "rest = drop (length sep) (c # cs)"
    from True have s: "c # cs = sep @ rest"
      unfolding rest_def starts_with_def by (metis append_take_drop_id)
    have l: "last (str_split sep (c # cs)) = last (str_split sep rest)"
      using True 2(3) str_split_nonempty [of sep rest] by (simp add: rest_def)
    show ?thesis
    proof (cases "str_contains sep rest")
      case True
      with 2(1) [OF _ 2(3)] \<open>starts_with sep (c # cs)\<close> 2(3)
      obtain pre where "rest = pre @ sep @ last (str_split sep rest)"
        by (auto simp: rest_def)
      with s l have "c # cs = (sep @ pre) @ sep @ last (str_split sep (c # cs))"
        by simp
      then show ?thesis by blast
    next
      case False
      then have "str_split sep rest = [rest]"
        by (rule str_split_no_occurrence)
      with s l have "c # cs = [] @ sep @ last (str_split sep (c # cs))"
        by simp
      then show ?thesis by blast
    qed
  next
    case False
    with 2(4) have c: "str_contains sep cs" by simp
    obtain p ps where sp: "str_split sep cs = p # ps"
      using str_split_nonempty [of sep cs] by (cases "str_split sep cs") auto
    have "ps \<noteq> []"
      using sp str_split_single [OF 2(3), of cs p] c by auto
    with sp False have l: "last (str_split sep (c # cs)) = last (str_split sep cs)"
      by simp
    from 2(2) [OF _ 2(3) c] False obtain pre where "cs = pre @ sep @ last (str_split sep cs)"
      by auto
    with l have "c # cs = (c # pre) @ sep @ last (str_split sep (c # cs))"
      by simp
    then show ?thesis by blast
  qed
qed

lemma strip_chars_decomp:
  "s = takeWhile P s @ strip_chars P s @ rev (takeWhile P (rev (dropWhile P s)))"
proof -
  have "rev (dropWhile P s) =
          takeWhile P (rev (dropWhile P s)) @ dropWhile P (rev (dropWhile P s))"
    by simp
  then have "dropWhile P s =
          rev (dropWhile P (rev (dropWhile P s))) @ rev (takeWhile P (rev (dropWhile P s)))"
    by (metis rev_append rev_rev_ident)
  then have "dropWhile P s = strip_chars P s @ rev (takeWhile P (rev (dropWhile P s)))"
    by (simp add: strip_chars_def)
  then show ?thesis
    by (metis takeWhile_dropWhile_id)
qed

lemma strip_chars_ends:
  "strip_chars P s \<noteq> [] \<Longrightarrow> \<not> P (hd (strip_chars P s)) \<and> \<not> P (last (strip_chars P s))"
proof -
  assume n: "strip_chars P s \<noteq> []"
  define t where "t = dropWhile P s"
  define r where "r = dropWhile P (rev t)"
  have sr: "strip_chars P s = rev r"
    by (simp add: strip_chars_def r_def t_def)
  with n have rn: "r \<noteq> []" by simp
  then have "\<not> P (hd r)"
    unfolding r_def by (rule hd_dropWhile)
  then have l: "\<not> P (last (strip_chars P s))"
    using sr rn by (simp add: last_rev)
  from rn have tn: "t \<noteq> []"
    unfolding r_def by auto
  then have ht: "\<not> P (hd t)"
    unfolding t_def by (rule hd_dropWhile)
  have "rev t = takeWhile P (rev t) @ r"
    by (simp add: r_def)
  then have "t = rev r @ rev (takeWhile P (rev t))"
    by (metis rev_append rev_rev_ident)
  then have "hd t = hd (rev r)"
    using rn by (metis hd_append2 rev_is_Nil_conv)
  with ht sr have "\<not> P (hd (strip_chars P s))" by simp
  with l show ?thesis by simp
qed

lemma derive_filename_cases:
  "case headers_get hs ''content-disposition'' of
     None \<Rightarrow> derive_filename hs ident = ident @ ''.bin''
   | Some cd \<Rightarrow>
       if str_contains ''filename='' cd
       then \<exists>pre rest. cd = pre @ ''filename='' @ rest \<and>
              \<not> str_contains ''filename='' rest \<and>
              derive_filename hs ident = strip_chars is_quote (strip_chars is_space rest)
       else derive_filename hs ident = ident @ ''.bin''"
proof (cases "headers_get hs ''content-disposition''")
  case None
  then show ?thesis by (simp add: derive_filename_def)
next
  case (Some cd)
  show ?thesis
  proof (cases "str_contains ''filename='' cd")
    case False
    with Some show ?thesis by (simp add: derive_filename_def)
  next
    case True
    define rest where "rest = last (str_split ''filename='' cd)"
    from True have "cd \<noteq> []" by auto
    with True Some have d: "derive_filename hs ident =
        strip_chars is_quote (strip_chars is_space rest)"
      by (simp add: derive_filename_def rest_def)
    have n: "''filename='' \<noteq> []" by simp
    from last_str_split_suffix [OF n True] obtain pre where
      "cd = pre @ ''filename='' @ rest"
      unfolding rest_def by blast
    moreover have "\<not> str_contains ''filename='' rest"
      unfolding rest_def using last_str_split_no_sep [OF n] .
    ultimately have "\<exists>pre rest. cd = pre @ ''filename='' @ rest \<and>
              \<not> str_contains ''filename='' rest \<and>
              derive_filename hs ident = strip_chars is_quote (strip_chars is_space rest)"
      using d by blast
    with Some True show ?thesis by simp
  qed
qed

lemma try_block_filename:
  assumes u: "unwrap_pillowcase_url url = Some real_url"
    and i: "re_search ID_PATTERN real_url = Some ident"
    and g: "get_result env (download_endpoint ident) = Inr resp"
    and st: "status resp < 400"
  shows "fst (snd (try_block env url folder w)) = derive_filename (headers resp) ident"
proof -
  note r = u unwrap_nonempty [OF u]
  show ?thesis
  proof (cases "open_error env (path_join folder (derive_filename (headers resp) ident))")
    case (Some e)
    show ?thesis
      using try_block_open_fails [OF r i g st Some] by simp
  next
    case None
    obtain res fs where wc:
      "write_chunks (write_error env) 0
         (path_join folder (derive_filename (headers resp) ident))
         (chunks resp) (stream_error resp)
         ((files w)(path_join folder (derive_filename (headers resp) ident) \<mapsto> []))
       = (res, fs)"
      by fastforce
    show ?thesis
      using try_block_stream [OF r i g st None wc] by simp
  qed
qed

subsection \<open>What a task leaves in the world\<close>

lemma download_file_fields:
  assumes "try_block env url folder w = (r, fn, w1)"
  shows "requests (snd (download_file env url folder w)) = requests w1"
    and "opened (snd (download_file env url folder w)) = opened w1"
    and "files (snd (download_file env url folder w)) = files w1"
    and "progress (snd (download_file env url folder w)) = progress w1 + 1"
proof -
  have "requests (snd (download_file env url folder w)) = requests w1 \<and>
        opened (snd (download_file env url folder w)) = opened w1 \<and>
        files (snd (download_file env url folder w)) = files w1 \<and>
        progress (snd (download_file env url folder w)) = progress w1 + 1"
  proof (cases r)
    case Completed
    with assms show ?thesis by (simp add: download_file_Completed)
  next
    case (Raised e)
    show ?thesis
    proof (cases "append_error_handler env")
      case None
      with assms Raised show ?thesis by (simp add: download_file_logged)
    next
      case (Some e')
      with assms Raised show ?thesis by (simp add: download_file_unlogged)
    qed
  qed
  then show "requests (snd (download_file env url folder w)) = requests w1"
    and "opened (snd (download_file env url folder w)) = opened w1"
    and "files (snd (download_file env url folder w)) = files w1"
    and "progress (snd (download_file env url folder w)) = progress w1 + 1"
    by simp_all
qed

lemma log_and_return_progress:
  "progress (snd (snd (log_and_return env f u r w))) = progress w"
  by (cases "append_error_try env") (simp_all add: log_and_return_ok log_and_return_fails)

lemma progress_try_block:
  "progress (snd (snd (try_block env url folder w))) = progress w"
proof (cases "unwrap_pillowcase_url url")
  case None
  then show ?thesis by (simp add: try_block_unresolved log_and_return_progress)
next
  case (Some real_url)
  note r = Some unwrap_nonempty [OF Some]
  show ?thesis
  proof (cases "re_search ID_PATTERN real_url")
    case None
    then show ?thesis using r by (simp add: try_block_no_id log_and_return_progress)
  next
    case (Some ident)
    note i = Some
    show ?thesis
    proof (cases "get_result env (download_endpoint ident)")
      case (Inl e)
      show ?thesis by (simp add: try_block_get_raises [OF r i Inl])
    next
      case (Inr resp)
      note g = Inr
      show ?thesis
      proof (cases "400 \<le> status resp")
        case True
        show ?thesis by (simp add: try_block_bad_status [OF r i g True])
      next
        case False
        then have st: "status resp < 400" by simp
        show ?thesis
        proof (cases "open_error env (path_join folder (derive_filename (headers resp) ident))")
          case (Some e)
          show ?thesis by (simp add: try_block_open_fails [OF r i g st Some])
        next
          case None
          obtain res fs where wc:
            "write_chunks (write_error env) 0
               (path_join folder (derive_filename (headers resp) ident))
               (chunks resp) (stream_error resp)
               ((files w)(path_join folder (derive_filename (headers resp) ident) \<mapsto> []))
             = (res, fs)"
            by fastforce
          show ?thesis by (simp add: try_block_stream [OF r i g st None wc])
        qed
      qed
    qed
  qed
qed

lemma progress_download_file:
  "progress (snd (download_file env url folder w)) = progress w + 1"
proof -
  obtain res fn w1 where tb: "try_block env url folder w = (res, fn, w1)"
    by (cases "try_block env url folder w") auto
  then have "progress w1 = progress w"
    using progress_try_block [of env url folder w] by simp
  with download_file_fields(4) [OF tb] show ?thesis by simp
qed

lemma requests_download_file:
  assumes u: "unwrap_pillowcase_url url = Some real_url"
    and i: "re_search ID_PATTERN real_url = Some ident"
  shows "requests (snd (download_file env url folder w)) =
           requests w @ [download_endpoint ident]"
proof -
  note r = u unwrap_nonempty [OF u]
  show ?thesis
  proof (cases "get_result env (download_endpoint ident)")
    case (Inl e)
    show ?thesis
      using download_file_fields(1) [OF try_block_get_raises [OF r i Inl]] by simp
  next
    case (Inr resp)
    note g = Inr
    show ?thesis
    proof (cases "400 \<le> status resp")
      case True
      show ?thesis
        using download_file_fields(1) [OF try_block_bad_status [OF r i g True]] by simp
    next
      case False
      then have st: "status resp < 400" by simp
      show ?thesis
      proof (cases "open_error env (path_join folder (derive_filename (headers resp) ident))")
        case (Some e)
        show ?thesis
          using download_file_fields(1) [OF try_block_open_fails [OF r i g st Some]] by simp
      next
        case None
        obtain res fs where wc:
          "write_chunks (write_error env) 0
             (path_join folder (derive_filename (headers resp) ident))
             (chunks resp) (stream_error resp)
             ((files w)(path_join folder (derive_filename (headers resp) ident) \<mapsto> []))
           = (res, fs)"
          by fastforce
        show ?thesis
          using download_file_fields(1) [OF try_block_stream [OF r i g st None wc]] by simp
      qed
    qed
  qed
qed

lemma opened_download_file:
  assumes u: "unwrap_pillowcase_url url = Some real_url"
    and i: "re_search ID_PATTERN real_url = Some ident"
    and g: "get_result env (download_endpoint ident) = Inr resp"
    and st: "status resp < 400"
    and op: "open_error env (path_join folder (derive_filename (headers resp) ident)) = None"
  shows "opened (snd (download_file env url folder w)) =
           opened w @ [path_join folder (derive_filename (headers resp) ident)]"
proof -
  note r = u unwrap_nonempty [OF u]
  obtain res fs where wc:
    "write_chunks (write_error env) 0
       (path_join folder (derive_filename (headers resp) ident))
       (chunks resp) (stream_error resp)
       ((files w)(path_join folder (derive_filename (headers resp) ident) \<mapsto> []))
     = (res, fs)"
    by fastforce
  show ?thesis
    using download_file_fields(2) [OF try_block_stream [OF r i g st op wc]] by simp
qed

subsection \<open>Runs with an error log that cannot be appended to\<close>

lemma eval_junk_unloggable:
  "download_file (env_unloggable resp) url_junk folder w =
     (Raised ''Permission denied'', w\<lparr>progress := progress w + 1\<rparr>)"
  using download_file_unresolved [OF disjI1 [OF eval_junk(3)], of "env_unloggable resp" folder w]
  by (simp add: eval_envs)

lemma eval_short_unloggable:
  "download_file (env_unloggable resp) url_short folder w =
     (Raised ''Permission denied'', w\<lparr>progress := progress w + 1\<rparr>)"
  using download_file_no_id [OF eval_short, of "env_unloggable resp" folder w]
  by (simp add: eval_envs)

lemma eval_404_unloggable_any:
  "download_file (env_unloggable resp_404) url_plain folder w =
     (Raised ''Permission denied'',
      w\<lparr>requests := requests w @ [download_endpoint ''deadbeefdeadbeefdeadbeefdeadbeef''],
        progress := progress w + 1\<rparr>)"
proof -
  have st: "400 \<le> status resp_404"
    by (simp add: resp_404_def)
  show ?thesis
    using download_file_bad_status [OF eval_plain eval_envs(6) st, of folder w]
    by (simp add: eval_envs)
qed

section \<open>Facts about the scheduler\<close>

lemma count_list_update:
  "i < length xs \<Longrightarrow>
   count_list (xs[i := y]) a + (if xs ! i = a then 1 else 0) =
   count_list xs a + (if y = a then 1 else 0)"
proof (induction xs arbitrary: i)
  case Nil
  then show ?case by simp
next
  case (Cons x xs)
  show ?case
  proof (cases i)
    case 0
    then show ?thesis by simp
  next
    case (Suc j)
    with Cons.prems have "j < length xs" by simp
    from Cons.IH [OF this] Suc show ?thesis by (auto split: if_splits)
  qed
qed

lemma length_states_step [simp]:
  "length (states (step envs urls folder i s)) = length (states s)"
  by (simp add: step_def Let_def case_prod_beta split: task_state.splits)

lemma length_states_exec [simp]:
  "length (states (exec envs urls folder sch s)) = length (states s)"
  by (induction sch arbitrary: s) simp_all

lemma exec_append:
  "exec envs urls folder (a @ b) s = exec envs urls folder b (exec envs urls folder a s)"
  by (induction a arbitrary: s) simp_all

lemma step_permits:
  assumes "permits s + count_list (states s) Holding = m"
  shows "permits (step envs urls folder i s) +
           count_list (states (step envs urls folder i s)) Holding = m"
proof (cases "i < length (states s) \<and> raised s = None")
  case False
  then show ?thesis using assms by (auto simp: step_def)
next
  case True
  then have i: "i < length (states s)" and r: "raised s = None"
    by simp_all
  note u = count_list_update [OF i, of _ Holding]
  show ?thesis
  proof (cases "states s ! i")
    case Waiting
    with u [of Holding] assms i r show ?thesis
      by (simp add: step_def)
  next
    case Holding
    with u [of Finished] assms i r show ?thesis
      by (simp add: step_def Let_def case_prod_beta)
  next
    case Finished
    with assms i r show ?thesis by (simp add: step_def)
  qed
qed

lemma exec_permits:
  "permits s + count_list (states s) Holding = m \<Longrightarrow>
   permits (exec envs urls folder sch s) +
     count_list (states (exec envs urls folder sch s)) Holding = m"
proof (induction sch arbitrary: s)
  case Nil
  then show ?case by simp
next
  case (Cons i sch)
  from Cons.IH [OF step_permits [OF Cons.prems]] show ?case by simp
qed

lemma init_permits:
  "permits (init_sched n w) + count_list (states (init_sched n w)) Holding =
     MAX_CONCURRENT_DOWNLOADS"
  by (simp add: init_sched_def count_list_0_iff)

text \<open>No exception leaves a task whose handler can append to the error log.\<close>

lemma step_raised_None:
  assumes "raised s = None"
    and "\<forall>j < length (states s). append_error_handler (envs j) = None"
  shows "raised (step envs urls folder i s) = None"
proof (cases "i < length (states s)")
  case False
  then show ?thesis using assms(1) by (simp add: step_def)
next
  case True
  with assms(2) have "append_error_handler (envs i) = None"
    by simp
  from download_file_never_raises [OF this]
  have c: "fst (download_file (envs i) (urls ! i) folder (sworld s)) = Completed" .
  show ?thesis
    using assms(1) True c
    by (cases "states s ! i") (simp_all add: step_def Let_def case_prod_beta)
qed

lemma exec_raised_None:
  assumes "raised s = None"
    and "\<forall>j < length (states s). append_error_handler (envs j) = None"
  shows "raised (exec envs urls folder sch s) = None"
  using assms
proof (induction sch arbitrary: s)
  case Nil
  then show ?case by simp
next
  case (Cons i sch)
  have "raised (step envs urls folder i s) = None"
    by (rule step_raised_None [OF Cons.prems])
  moreover have "\<forall>j < length (states (step envs urls folder i s)).
                   append_error_handler (envs j) = None"
    using Cons.prems(2) by simp
  ultimately show ?case
    using Cons.IH by simp
qed

lemma step_progress:
  assumes "progress (sworld s) = p + count_list (states s) Finished"
  shows "progress (sworld (step envs urls folder i s)) =
           p + count_list (states (step envs urls folder i s)) Finished"
proof (cases "i < length (states s) \<and> raised s = None")
  case False
  then show ?thesis using assms by (auto simp: step_def)
next
  case True
  then have i: "i < length (states s)" and r: "raised s = None"
    by simp_all
  note u = count_list_update [OF i, of _ Finished]
  show ?thesis
  proof (cases "states s ! i")
    case Waiting
    with u [of Holding] assms i r show ?thesis
      by (simp add: step_def)
  next
    case Holding
    with u [of Finished] assms i r show ?thesis
      by (simp add: step_def Let_def case_prod_beta progress_download_file)
  next
    case Finished
    with assms i r show ?thesis by (simp add: step_def)
  qed
qed

lemma exec_progress:
  "progress (sworld s) = p + count_list (states s) Finished \<Longrightarrow>
   progress (sworld (exec envs urls folder sch s)) =
     p + count_list (states (exec envs urls folder sch s)) Finished"
proof (induction sch arbitrary: s)
  case Nil
  then show ?case by simp
next
  case (Cons i sch)
  from Cons.IH [OF step_progress [OF Cons.prems]] show ?case by simp
qed

lemma step_Finished_stays:
  "j < length (states s) \<Longrightarrow> states s ! j = Finished \<Longrightarrow>
   states (step envs urls folder i s) ! j = Finished"
  by (cases "i = j")
    (auto simp: step_def Let_def case_prod_beta split: task_state.splits)

lemma exec_Finished_stays:
  "j < length (states s) \<Longrightarrow> states s ! j = Finished \<Longrightarrow>
   states (exec envs urls folder sch s) ! j = Finished"
proof (induction sch arbitrary: s)
  case Nil
  then show ?case by simp
next
  case (Cons i sch)
  from step_Finished_stays [OF Cons.prems] Cons.prems(1)
  have "states (step envs urls folder i s) ! j = Finished"
    "j < length (states (step envs urls folder i s))"
    by simp_all
  from Cons.IH [OF this(2) this(1)] show ?case by simp
qed

text \<open>Releasing: stepping tasks none of which is waiting finishes those inside the block.\<close>

lemma exec_release:
  assumes "\<forall>i \<in> set sch. states s ! i \<noteq> Waiting"
    and "j < length (states s)"
    and "raised s = None"
    and "\<forall>k < length (states s). append_error_handler (envs k) = None"
  shows "states (exec envs urls folder sch s) ! j =
           (if j \<in> set sch \<and> states s ! j = Holding then Finished else states s ! j)"
  using assms
proof (induction sch arbitrary: s)
  case Nil
  then show ?case by simp
next
  case (Cons i sch)
  define s' where "s' = step envs urls folder i s"
  have st: "states s' = (if i < length (states s) \<and> states s ! i = Holding
                          then (states s)[i := Finished] else states s)"
    using Cons.prems(1,3)
    by (cases "states s ! i") (auto simp: s'_def step_def Let_def case_prod_beta)
  have nw: "\<forall>k \<in> set sch. states s' ! k \<noteq> Waiting"
    using Cons.prems(1) st by (auto simp: nth_list_update)
  have j: "j < length (states s')"
    using Cons.prems(2) by (simp add: s'_def)
  have r: "raised s' = None"
    unfolding s'_def by (rule step_raised_None [OF Cons.prems(3,4)])
  have h: "\<forall>k < length (states s'). append_error_handler (envs k) = None"
    using Cons.prems(4) by (simp add: s'_def)
  from Cons.IH [OF nw j r h]
  have "states (exec envs urls folder sch s') ! j =
          (if j \<in> set sch \<and> states s' ! j = Holding then Finished else states s' ! j)" .
  then show ?case
    using st Cons.prems(2) by (auto simp: s'_def [symmetric] nth_list_update)
qed

text \<open>With no task inside the block and a permit left, two steps take a task to its end.\<close>

lemma step_twice:
  assumes "Holding \<notin> set (states s)" "0 < permits s"
    and "raised s = None"
    and "\<forall>k < length (states s). append_error_handler (envs k) = None"
  shows "Holding \<notin> set (states (step envs urls folder i (step envs urls folder i s))) \<and>
         permits (step envs urls folder i (step envs urls folder i s)) = permits s \<and>
         (i < length (states s) \<longrightarrow>
            states (step envs urls folder i (step envs urls folder i s)) ! i = Finished)"
proof (cases "i < length (states s)")
  case False
  then show ?thesis using assms by (simp add: step_def)
next
  case True
  have nh: "states s ! i \<noteq> Holding"
    using assms(1) True by (metis nth_mem)
  have sub: "set ((states s)[i := Finished]) \<subseteq> insert Finished (set (states s))"
    by (rule set_update_subset_insert)
  show ?thesis
  proof (cases "states s ! i")
    case Waiting
    with True assms(1-3) sub show ?thesis
      by (auto simp: step_def Let_def case_prod_beta)
  next
    case Holding
    with nh show ?thesis by simp
  next
    case Finished
    with True assms(1-3) show ?thesis by (simp add: step_def)
  qed
qed

lemma exec_twice:
  assumes "Holding \<notin> set (states s)" "0 < permits s"
    and "raised s = None"
    and "\<forall>k < length (states s). append_error_handler (envs k) = None"
  shows "Holding \<notin> set (states (exec envs urls folder (concat (map (\<lambda>i. [i, i]) is)) s)) \<and>
         (\<forall>j \<in> set is. j < length (states s) \<longrightarrow>
            states (exec envs urls folder (concat (map (\<lambda>i. [i, i]) is)) s) ! j = Finished)"
  using assms
proof (induction "is" arbitrary: s)
  case Nil
  then show ?case by simp
next
  case (Cons i "is")
  define s' where "s' = step envs urls folder i (step envs urls folder i s)"
  from step_twice [OF Cons.prems, of urls folder i]
  have a: "Holding \<notin> set (states s')" "0 < permits s'"
    and f: "i < length (states s) \<longrightarrow> states s' ! i = Finished"
    using Cons.prems(2) by (simp_all add: s'_def)
  have l: "length (states s') = length (states s)"
    by (simp add: s'_def)
  have r: "raised s' = None"
    using exec_raised_None [OF Cons.prems(3,4), of urls folder "[i, i]"]
    by (simp add: s'_def)
  have h: "\<forall>k < length (states s'). append_error_handler (envs k) = None"
    using Cons.prems(4) l by simp
  from Cons.IH [OF a r h]
  have ih: "Holding \<notin> set (states (exec envs urls folder (concat (map (\<lambda>i. [i, i]) is)) s'))"
    "\<forall>j \<in> set is. j < length (states s) \<longrightarrow>
        states (exec envs urls folder (concat (map (\<lambda>i. [i, i]) is)) s') ! j = Finished"
    using l by simp_all
  have "i < length (states s) \<longrightarrow>
          states (exec envs urls folder (concat (map (\<lambda>i. [i, i]) is)) s') ! i = Finished"
    using f exec_Finished_stays [of i s'] l by simp
  with ih show ?case
    by (simp add: s'_def)
qed

lemma gather_raised_None:
  assumes "\<forall>i < length urls. append_error_handler (envs i) = None"
  shows "raised (gather envs urls folder sch w) = None"
  unfolding gather_def
  by (rule exec_raised_None) (simp_all add: init_sched_def assms)

lemma gather_finishes:
  assumes nr: "\<forall>i < length urls. append_error_handler (envs i) = None"
  shows "states (gather envs urls folder sch w) = replicate (length urls) Finished"
proof -
  define n where "n = length urls"
  define s1 where "s1 = exec envs urls folder sch (init_sched n w)"
  define H where "H = [i \<leftarrow> [0..<length (states s1)]. states s1 ! i = Holding]"
  define D where "D = concat (map (\<lambda>i. [i, i]) [0..<length (states s1)])"
  define s2 where "s2 = exec envs urls folder H s1"
  define s3 where "s3 = exec envs urls folder D s2"
  have g: "gather envs urls folder sch w = s3"
    by (simp add: gather_def gather_schedule_def drain_schedule_def exec_append
        s3_def s2_def s1_def H_def D_def n_def)
  have len1: "length (states s1) = n"
    by (simp add: s1_def init_sched_def)
  have len2: "length (states s2) = n"
    by (simp add: s2_def len1)
  have h0: "\<forall>k < length (states (init_sched n w)). append_error_handler (envs k) = None"
    using nr by (simp add: init_sched_def n_def)
  have r1: "raised s1 = None"
    unfolding s1_def by (rule exec_raised_None [OF _ h0]) (simp add: init_sched_def)
  have h1: "\<forall>k < length (states s1). append_error_handler (envs k) = None"
    using nr by (simp add: len1 n_def)
  have r2: "raised s2 = None"
    unfolding s2_def by (rule exec_raised_None [OF r1 h1])
  have h2: "\<forall>k < length (states s2). append_error_handler (envs k) = None"
    using nr by (simp add: len2 n_def)
  have inv1: "permits s1 + count_list (states s1) Holding = MAX_CONCURRENT_DOWNLOADS"
    unfolding s1_def by (rule exec_permits [OF init_permits])
  have inv2: "permits s2 + count_list (states s2) Holding = MAX_CONCURRENT_DOWNLOADS"
    unfolding s2_def by (rule exec_permits [OF inv1])
  have nw: "\<forall>i \<in> set H. states s1 ! i \<noteq> Waiting"
    by (simp add: H_def)
  have "states s2 ! j \<noteq> Holding" if "j < n" for j
  proof -
    from that have j: "j < length (states s1)" by (simp add: len1)
    have "j \<in> set H \<longleftrightarrow> states s1 ! j = Holding"
      using j by (simp add: H_def)
    then show ?thesis
      using exec_release [OF nw j r1 h1, of urls folder] by (simp add: s2_def)
  qed
  then have nh: "Holding \<notin> set (states s2)"
    using len2 by (auto simp: in_set_conv_nth)
  then have "count_list (states s2) Holding = 0"
    by simp
  with inv2 have p: "0 < permits s2"
    by (simp add: MAX_CONCURRENT_DOWNLOADS_def)
  from exec_twice [OF nh p r2 h2, of urls folder "[0..<length (states s1)]"]
  have "\<forall>j < n. states s3 ! j = Finished"
    by (simp add: s3_def D_def len1 len2)
  moreover have "length (states s3) = n"
    by (simp add: s3_def len2)
  ultimately have "states s3 = replicate n Finished"
    by (simp add: list_eq_iff_nth_eq)
  with g show ?thesis
    by (simp add: n_def)
qed

lemma gather_progress:
  assumes "\<forall>i < length urls. append_error_handler (envs i) = None"
  shows "progress (sworld (gather envs urls folder sch w)) = progress w + length urls"
proof -
  have "progress (sworld (init_sched (length urls) w)) =
          progress w + count_list (states (init_sched (length urls) w)) Finished"
    by (simp add: init_sched_def count_list_0_iff)
  from exec_progress [OF this]
  have "progress (sworld (gather envs urls folder sch w)) =
          progress w + count_list (states (gather envs urls folder sch w)) Finished"
    by (simp add: gather_def)
  moreover have "count_list (replicate n Finished) Finished = n" for n
    by (induction n) simp_all
  ultimately show ?thesis
    by (simp add: gather_finishes [OF assms])
qed

lemma main_no_urls:
  assumes "input_file renv = Inr content" "parse_urls content = []"
  shows "main renv w = Inr (w\<lparr>stdout := stdout w @ [''No URLs found.'']\<rparr>)"
  using assms by (simp add: main_def print_def)

lemma main_progress:
  assumes "input_file renv = Inr content"
    and "parse_urls content = [] \<or> makedirs_error renv = None"
    and "\<forall>i < length (parse_urls content). append_error_handler (task_envs renv i) = None"
  shows "\<exists>w'. main renv w = Inr w' \<and> progress w' = progress w + length (parse_urls content)"
proof (cases "parse_urls content = []")
  case True
  then show ?thesis
    using main_no_urls [OF assms(1) True] by simp
next
  case False
  with assms(2) have m: "makedirs_error renv = None" by simp
  show ?thesis
    using assms(1) False m
    by (simp add: main_def Let_def print_def makedirs_def gather_progress [OF assms(3)]
        gather_raised_None [OF assms(3)])
qed

subsection \<open>Reading the input file\<close>

lemma strip_chars_Nil_iff: "strip_chars P s = [] \<longleftrightarrow> list_all P s"
proof
  assume "strip_chars P s = []"
  then have "dropWhile P (rev (dropWhile P s)) = []"
    by (simp add: strip_chars_def)
  then have a: "\<forall>x \<in> set (dropWhile P s). P x"
    by (simp add: dropWhile_eq_Nil_conv)
  have "dropWhile P s = []"
  proof (rule ccontr)
    assume n: "dropWhile P s \<noteq> []"
    then have "\<not> P (hd (dropWhile P s))" by (rule hd_dropWhile)
    moreover from n have "hd (dropWhile P s) \<in> set (dropWhile P s)" by simp
    ultimately show False using a by blast
  qed
  then show "list_all P s"
    by (simp add: dropWhile_eq_Nil_conv list_all_iff)
next
  assume "list_all P s"
  then have d: "dropWhile P s = []"
    by (simp add: dropWhile_eq_Nil_conv list_all_iff)
  show "strip_chars P s = []"
    unfolding strip_chars_def d by simp
qed

lemma concat_file_lines: "concat (file_lines s) = s"
  by (induction s) (auto split: list.splits)

lemma universal_newlines_space:
  "list_all is_space (universal_newlines s) \<longleftrightarrow> list_all is_space s"
  by (induction s rule: universal_newlines.induct) (auto simp: is_space_def)

lemma parse_urls_Nil_iff: "parse_urls content = [] \<longleftrightarrow> list_all is_space content"
proof -
  have "parse_urls content = [] \<longleftrightarrow>
          (\<forall>l \<in> set (file_lines (universal_newlines content)). list_all is_space l)"
    by (auto simp: parse_urls_def filter_empty_conv strip_chars_Nil_iff)
  also have "\<dots> \<longleftrightarrow> list_all is_space (concat (file_lines (universal_newlines content)))"
    by (auto simp: list_all_iff)
  also have "\<dots> \<longleftrightarrow> list_all is_space content"
    by (simp add: concat_file_lines universal_newlines_space)
  finally show ?thesis .
qed

lemma eval_input_mixed: "parse_urls input_mixed = [url_plain, url_junk, url_short]"
  by (simp add: parse_urls_def input_mixed_def url_plain_def url_junk_def url_short_def
      strip_chars_def is_space_def)

subsection \<open>The runs with an error log that cannot be appended to\<close>


lemma eval_input_two: "parse_urls input_two = [url_plain, url_plain]"
  by (simp add: parse_urls_def input_two_def url_plain_def strip_chars_def is_space_def)



lemma eval_gather_unloggable:
  "raised (gather (\<lambda>i. env_unloggable resp_404) [url_plain, url_plain] folder [0, 1, 0] w) =
     Some ''Permission denied''"
  "progress (sworld (gather (\<lambda>i. env_unloggable resp_404) [url_plain, url_plain] folder
                       [0, 1, 0] w)) = progress w + 1"
  "states (gather (\<lambda>i. env_unloggable resp_404) [url_plain, url_plain] folder [0, 1, 0] w) =
     [Finished, Holding]"
  by (simp_all add: gather_def gather_schedule_def drain_schedule_def init_sched_def step_def
      MAX_CONCURRENT_DOWNLOADS_def eval_404_unloggable_any)

lemma eval_run_unloggable:
  "main run_unloggable w = Inl ''Permission denied''"
  by (simp add: main_def run_unloggable_def run_of_def eval_input_two Let_def
      eval_gather_unloggable(1) [unfolded One_nat_def])

section \<open>URL resolver: claims\<close>

text \<open>
  C9: for every input string that already contains the host-specific path segment
  \<^verbatim>\<open>pillowcase.su/f/\<close>, the resolver returns that string itself, unchanged.
\<close>

theorem resolver_roundtrip:
  "str_contains ''pillowcase.su/f/'' url \<Longrightarrow> unwrap_pillowcase_url url = Some url"
  by (simp add: unwrap_pillowcase_url_def)

theorem resolver_roundtrip_witness:
  "str_contains ''pillowcase.su/f/'' url_plain \<and>
   unwrap_pillowcase_url url_plain = Some url_plain"
proof -
  have h: "str_contains ''pillowcase.su/f/'' url_plain"
    by (simp add: url_plain_def starts_with_def)
  from h resolver_roundtrip [OF h] show ?thesis by (rule conjI)
qed

text \<open>
  C10: whenever the input holds an embedded \<^verbatim>\<open>https://pillowcase.su/f/<32-hex>\<close>
  substring, that is whenever the extraction pattern of line 28 matches, the identifier
  search of line 56 succeeds on the link the resolver returns, so the branch
  \<^verbatim>\<open>"No file ID found"\<close> is not taken; and on the extracted link the search returns the
  32 characters after the prefix. This covers the inputs of the claim (those that do not
  contain the path segment and resolve through the extraction branch), of which there are
  none, by \<open>extraction_branch_unreachable\<close>: an embedded link always contains the segment.
\<close>

theorem extracted_link_has_identifier:
  assumes "re_search LINK_PATTERN url = Some link"
    and "unwrap_pillowcase_url url = Some real_url"
  shows "re_search ID_PATTERN real_url \<noteq> None \<and>
         re_search ID_PATTERN link = Some (drop (length LINK_PREFIX) link)"
proof
  have "real_url = url \<or> real_url = link"
    using assms unfolding unwrap_pillowcase_url_def by (auto split: if_splits)
  moreover have "re_search ID_PATTERN url \<noteq> None"
    using assms(1) by (rule embedded_link_has_id)
  moreover have "re_search ID_PATTERN link = Some (drop (length LINK_PREFIX) link)"
  proof -
    from assms(1) obtain pre t where "LINK_PATTERN t = Some link"
      using re_search_Some_suffix by blast
    then obtain h where "link = LINK_PREFIX @ h" "length h = 32" "list_all is_hex h"
      using LINK_PATTERN_Some by blast
    then show ?thesis
      using ID_PATTERN_of_link by simp
  qed
  ultimately show "re_search ID_PATTERN real_url \<noteq> None" by auto
  from \<open>re_search ID_PATTERN link = Some (drop (length LINK_PREFIX) link)\<close>
  show "re_search ID_PATTERN link = Some (drop (length LINK_PREFIX) link)" .
qed

theorem extracted_link_has_identifier_witness:
  "re_search LINK_PATTERN (''see '' @ url_plain) = Some url_plain \<and>
   unwrap_pillowcase_url (''see '' @ url_plain) = Some (''see '' @ url_plain) \<and>
   re_search ID_PATTERN (''see '' @ url_plain) \<noteq> None \<and>
   re_search ID_PATTERN url_plain = Some ''deadbeefdeadbeefdeadbeefdeadbeef''"
proof -
  have a: "re_search LINK_PATTERN (''see '' @ url_plain) = Some url_plain"
    by (simp add: url_plain_def LINK_PATTERN_def LINK_PREFIX_def starts_with_def
        hex32_def is_hex_def)
  have b: "unwrap_pillowcase_url (''see '' @ url_plain) = Some (''see '' @ url_plain)"
    by (simp add: url_plain_def unwrap_pillowcase_url_def starts_with_def)
  have c: "drop (length LINK_PREFIX) url_plain = ''deadbeefdeadbeefdeadbeefdeadbeef''"
    by (simp add: url_plain_def LINK_PREFIX_def)
  from extracted_link_has_identifier [OF a b] a b c show ?thesis by simp
qed

section \<open>Resolver, translator and fetcher within the Download Task: claims\<close>




text \<open>
  C3, as amended: the resolver returns the whole string if it contains the path segment
  \<^verbatim>\<open>pillowcase.su/f/\<close>; otherwise it returns what the search for an embedded
  \<^verbatim>\<open>https://pillowcase.su/f/<32-hex>\<close> returns, which when it succeeds is such a substring
  of the input and fails exactly when the input has none. When the resolver returns
  nothing and the error log can be appended to, the task appends the Error Record with
  filename \<^verbatim>\<open>unknown\<close>, the input line and the reason \<^verbatim>\<open>No pillowcase link found\<close>,
  advances the progress counter and does nothing else. When that append raises, the
  handler appends the record with the text of the append's error as reason instead, and
  when this append raises too its exception leaves the task, with no record appended.
\<close>

theorem resolver_policy:
  "(str_contains ''pillowcase.su/f/'' url \<longrightarrow> unwrap_pillowcase_url url = Some url) \<and>
   (\<not> str_contains ''pillowcase.su/f/'' url \<longrightarrow>
      unwrap_pillowcase_url url = re_search LINK_PATTERN url) \<and>
   (\<forall>g. re_search LINK_PATTERN url = Some g \<longrightarrow>
      (\<exists>pre h post. url = pre @ g @ post \<and> g = ''https://pillowcase.su/f/'' @ h \<and>
         length h = 32 \<and> list_all is_hex h)) \<and>
   (re_search LINK_PATTERN url = None \<longleftrightarrow>
      \<not> (\<exists>pre h post. url = pre @ ''https://pillowcase.su/f/'' @ h @ post \<and> length h = 32 \<and>
            list_all is_hex h)) \<and>
   (unwrap_pillowcase_url url = None \<longrightarrow>
      download_file env url folder w =
        (case append_error_try env of
           None \<Rightarrow>
             (Completed,
              w\<lparr>error_log :=
                   Some (log_lines w @
                           [''unknown'' @ [CHR 0x09] @ url @ [CHR 0x09] @
                            ''No pillowcase link found'' @ [CHR 0x0A]]),
                progress := progress w + 1\<rparr>)
         | Some e \<Rightarrow>
             (case append_error_handler env of
                None \<Rightarrow>
                  (Completed,
                   w\<lparr>error_log :=
                        Some (log_lines w @
                                [''unknown'' @ [CHR 0x09] @ url @ [CHR 0x09] @ e @
                                 [CHR 0x0A]]),
                     progress := progress w + 1\<rparr>)
              | Some e' \<Rightarrow> (Raised e', w\<lparr>progress := progress w + 1\<rparr>))))"
proof (intro conjI)
  show "str_contains ''pillowcase.su/f/'' url \<longrightarrow> unwrap_pillowcase_url url = Some url"
    by (simp add: unwrap_pillowcase_url_def)
  show "\<not> str_contains ''pillowcase.su/f/'' url \<longrightarrow>
          unwrap_pillowcase_url url = re_search LINK_PATTERN url"
    by (simp add: unwrap_pillowcase_url_def split: option.splits)
  show "\<forall>g. re_search LINK_PATTERN url = Some g \<longrightarrow>
          (\<exists>pre h post. url = pre @ g @ post \<and> g = ''https://pillowcase.su/f/'' @ h \<and>
             length h = 32 \<and> list_all is_hex h)"
  proof (intro allI impI)
    fix g
    assume "re_search LINK_PATTERN url = Some g"
    then obtain pre t where u: "url = pre @ t" and m: "LINK_PATTERN t = Some g"
      using re_search_Some_suffix by blast
    from m obtain h rest where "t = LINK_PREFIX @ h @ rest" "g = LINK_PREFIX @ h"
      "length h = 32" "list_all is_hex h"
      using LINK_PATTERN_Some by blast
    with u have "url = pre @ g @ rest \<and> g = ''https://pillowcase.su/f/'' @ h \<and>
                   length h = 32 \<and> list_all is_hex h"
      by (simp add: LINK_PREFIX_def)
    then show "\<exists>pre h post. url = pre @ g @ post \<and> g = ''https://pillowcase.su/f/'' @ h \<and>
                 length h = 32 \<and> list_all is_hex h"
      by blast
  qed
  show "re_search LINK_PATTERN url = None \<longleftrightarrow>
          \<not> (\<exists>pre h post. url = pre @ ''https://pillowcase.su/f/'' @ h @ post \<and>
                length h = 32 \<and> list_all is_hex h)"
    using re_search_link_None_iff [of url] unfolding LINK_PREFIX_def .
  show "unwrap_pillowcase_url url = None \<longrightarrow>
      download_file env url folder w =
        (case append_error_try env of
           None \<Rightarrow>
             (Completed,
              w\<lparr>error_log :=
                   Some (log_lines w @
                           [''unknown'' @ [CHR 0x09] @ url @ [CHR 0x09] @
                            ''No pillowcase link found'' @ [CHR 0x0A]]),
                progress := progress w + 1\<rparr>)
         | Some e \<Rightarrow>
             (case append_error_handler env of
                None \<Rightarrow>
                  (Completed,
                   w\<lparr>error_log :=
                        Some (log_lines w @
                                [''unknown'' @ [CHR 0x09] @ url @ [CHR 0x09] @ e @
                                 [CHR 0x0A]]),
                     progress := progress w + 1\<rparr>)
              | Some e' \<Rightarrow> (Raised e', w\<lparr>progress := progress w + 1\<rparr>)))"
  proof
    assume "unwrap_pillowcase_url url = None"
    then have "unwrap_pillowcase_url url = None \<or> unwrap_pillowcase_url url = Some []" ..
    from download_file_unresolved [OF this, of env folder w] show
      "download_file env url folder w =
        (case append_error_try env of
           None \<Rightarrow>
             (Completed,
              w\<lparr>error_log :=
                   Some (log_lines w @
                           [''unknown'' @ [CHR 0x09] @ url @ [CHR 0x09] @
                            ''No pillowcase link found'' @ [CHR 0x0A]]),
                progress := progress w + 1\<rparr>)
         | Some e \<Rightarrow>
             (case append_error_handler env of
                None \<Rightarrow>
                  (Completed,
                   w\<lparr>error_log :=
                        Some (log_lines w @
                                [''unknown'' @ [CHR 0x09] @ url @ [CHR 0x09] @ e @
                                 [CHR 0x0A]]),
                     progress := progress w + 1\<rparr>)
              | Some e' \<Rightarrow> (Raised e', w\<lparr>progress := progress w + 1\<rparr>)))"
      unfolding format_record_def .
  qed
qed

theorem resolver_policy_witness:
  "str_contains ''pillowcase.su/f/'' url_plain \<and>
   unwrap_pillowcase_url url_plain = Some url_plain \<and>
   \<not> str_contains ''pillowcase.su/f/'' url_junk \<and>
   re_search LINK_PATTERN url_junk = None \<and>
   unwrap_pillowcase_url url_junk = None \<and>
   append_error_try (env_of resp_song) = None \<and>
   download_file (env_of resp_song) url_junk ''downloads/run'' world_empty =
     (Completed,
      world_empty\<lparr>error_log :=
                    Some [''unknown'' @ [CHR 0x09] @ ''not a valid url at all'' @ [CHR 0x09] @
                          ''No pillowcase link found'' @ [CHR 0x0A]],
                  progress := 1\<rparr>)"
proof -
  have a: "str_contains ''pillowcase.su/f/'' url_plain"
    by (simp add: url_plain_def starts_with_def)
  note t1 = resolver_policy [where url = url_plain, THEN conjunct1, rule_format, OF a]
  note t2 = resolver_policy [where url = url_junk and env = "env_of resp_song"
      and folder = "''downloads/run''" and w = world_empty,
      THEN conjunct2, THEN conjunct2, THEN conjunct2, THEN conjunct2, rule_format,
      OF eval_junk(3)]
  have d: "download_file (env_of resp_song) url_junk ''downloads/run'' world_empty =
     (Completed,
      world_empty\<lparr>error_log :=
                    Some [''unknown'' @ [CHR 0x09] @ ''not a valid url at all'' @ [CHR 0x09] @
                          ''No pillowcase link found'' @ [CHR 0x0A]],
                  progress := 1\<rparr>)"
    using t2 by (simp add: eval_envs eval_world_empty url_junk_def)
  from a t1 eval_junk eval_envs(4) [of resp_song] d show ?thesis
    by (intro conjI)
qed

text \<open>
  C3 as stated fails on the text of the reason, and on an error log that cannot be
  appended to: for the line \<^verbatim>\<open>not a valid url at all\<close> the record appended is not the one
  with reason \<^verbatim>\<open>no source link found\<close>, and with such an error log no record is appended
  at all.
\<close>

theorem unusable_line_reason_counterexample:
  "unwrap_pillowcase_url url_junk = None \<and>
   error_log (snd (download_file (env_of resp_song) url_junk ''downloads/run'' world_empty)) =
     Some [''unknown'' @ [CHR 0x09] @ ''not a valid url at all'' @ [CHR 0x09] @
           ''No pillowcase link found'' @ [CHR 0x0A]] \<and>
   error_log (snd (download_file (env_of resp_song) url_junk ''downloads/run'' world_empty)) \<noteq>
     Some [''unknown'' @ [CHR 0x09] @ ''not a valid url at all'' @ [CHR 0x09] @
           ''no source link found'' @ [CHR 0x0A]] \<and>
   download_file (env_unloggable resp_song) url_junk ''downloads/run'' world_empty =
     (Raised ''Permission denied'', world_empty\<lparr>progress := 1\<rparr>) \<and>
   error_log (snd (download_file (env_unloggable resp_song) url_junk ''downloads/run''
                     world_empty)) = None"
proof -
  have d: "download_file (env_of resp_song) url_junk ''downloads/run'' world_empty =
     (Completed,
      world_empty\<lparr>error_log :=
                    Some [''unknown'' @ [CHR 0x09] @ url_junk @ [CHR 0x09] @
                          ''No pillowcase link found'' @ [CHR 0x0A]],
                  progress := 1\<rparr>)"
    using download_file_unresolved [OF disjI1 [OF eval_junk(3)], of "env_of resp_song"
        "''downloads/run''" world_empty]
    by (simp add: eval_envs eval_world_empty format_record_def)
  have 1: "error_log (snd (download_file (env_of resp_song) url_junk ''downloads/run''
                             world_empty)) =
     Some [''unknown'' @ [CHR 0x09] @ ''not a valid url at all'' @ [CHR 0x09] @
           ''No pillowcase link found'' @ [CHR 0x0A]]"
    unfolding d by (simp add: url_junk_def)
  have 2: "error_log (snd (download_file (env_of resp_song) url_junk ''downloads/run''
                             world_empty)) \<noteq>
     Some [''unknown'' @ [CHR 0x09] @ ''not a valid url at all'' @ [CHR 0x09] @
           ''no source link found'' @ [CHR 0x0A]]"
    unfolding d by (simp add: url_junk_def)
  have 3: "download_file (env_unloggable resp_song) url_junk ''downloads/run'' world_empty =
     (Raised ''Permission denied'', world_empty\<lparr>progress := 1\<rparr>)"
    unfolding eval_junk_unloggable by (simp add: eval_world_empty)
  have 4: "error_log (snd (download_file (env_unloggable resp_song) url_junk ''downloads/run''
                     world_empty)) = None"
    unfolding eval_junk_unloggable by (simp add: eval_world_empty)
  from eval_junk(3) 1 2 3 4 show ?thesis
    by (intro conjI)
qed

text \<open>
  C4, as amended: for every canonical source link the translator searches for the first
  run of 32 characters of \<^verbatim>\<open>[a-f0-9]\<close>. If there is one, it is the identifier, a substring
  of the link, and the task requests
  \<^verbatim>\<open>https://api.pillows.su/api/download/\<close> followed by the identifier. If there is none,
  the link holds no such run at all; then, when the error log can be appended to, the
  task appends the Error Record with filename \<^verbatim>\<open>unknown\<close>, the input line and the reason
  \<^verbatim>\<open>No file ID found\<close>, advances the progress counter and does nothing else (no request is
  made). When that append raises, the handler appends the record with the text of the
  append's error as reason instead, and when this append raises too its exception leaves
  the task, with no record appended.
\<close>

theorem translator_contract:
  assumes "unwrap_pillowcase_url url = Some real_url"
  shows "case re_search ID_PATTERN real_url of
           Some identifier \<Rightarrow>
             length identifier = 32 \<and> list_all is_hex identifier \<and>
             str_contains identifier real_url \<and>
             requests (snd (download_file env url folder w)) =
               requests w @ [''https://api.pillows.su/api/download/'' @ identifier]
         | None \<Rightarrow>
             \<not> (\<exists>pre h post. real_url = pre @ h @ post \<and> length h = 32 \<and>
                   list_all is_hex h) \<and>
             download_file env url folder w =
               (case append_error_try env of
                  None \<Rightarrow>
                    (Completed,
                     w\<lparr>error_log :=
                          Some (log_lines w @
                                  [''unknown'' @ [CHR 0x09] @ url @ [CHR 0x09] @
                                   ''No file ID found'' @ [CHR 0x0A]]),
                       progress := progress w + 1\<rparr>)
                | Some e \<Rightarrow>
                    (case append_error_handler env of
                       None \<Rightarrow>
                         (Completed,
                          w\<lparr>error_log :=
                               Some (log_lines w @
                                       [''unknown'' @ [CHR 0x09] @ url @ [CHR 0x09] @ e @
                                        [CHR 0x0A]]),
                            progress := progress w + 1\<rparr>)
                     | Some e' \<Rightarrow> (Raised e', w\<lparr>progress := progress w + 1\<rparr>)))"
proof (cases "re_search ID_PATTERN real_url")
  case None
  then show ?thesis
    using ID_PATTERN_None_iff [of real_url]
      download_file_no_id [OF assms None, of env folder w, unfolded format_record_def]
    by simp
next
  case (Some ident)
  then show ?thesis
    using ID_PATTERN_Some [OF Some] requests_download_file [OF assms Some]
    by (simp add: download_endpoint_def)
qed

theorem translator_contract_witness:
  "unwrap_pillowcase_url url_plain = Some url_plain \<and>
   re_search ID_PATTERN url_plain = Some ''deadbeefdeadbeefdeadbeefdeadbeef'' \<and>
   requests (snd (download_file (env_of resp_song) url_plain ''downloads/run'' world_empty)) =
     [''https://api.pillows.su/api/download/deadbeefdeadbeefdeadbeefdeadbeef''] \<and>
   unwrap_pillowcase_url url_short = Some url_short \<and>
   re_search ID_PATTERN url_short = None \<and>
   append_error_try (env_of resp_song) = None \<and>
   download_file (env_of resp_song) url_short ''downloads/run'' world_empty =
     (Completed,
      world_empty\<lparr>error_log :=
                    Some [''unknown'' @ [CHR 0x09] @ ''https://pillowcase.su/f/abc'' @
                          [CHR 0x09] @ ''No file ID found'' @ [CHR 0x0A]],
                  progress := 1\<rparr>)"
proof -
  note a = translator_contract [OF eval_plain(1), where env = "env_of resp_song"
      and folder = "''downloads/run''" and w = world_empty]
  note b = translator_contract [OF eval_short(1), where env = "env_of resp_song"
      and folder = "''downloads/run''" and w = world_empty]
  from a have 1: "requests (snd (download_file (env_of resp_song) url_plain ''downloads/run''
                                   world_empty)) =
     [''https://api.pillows.su/api/download/deadbeefdeadbeefdeadbeefdeadbeef'']"
    unfolding eval_plain(2) by (simp add: eval_world_empty)
  from b have 2: "download_file (env_of resp_song) url_short ''downloads/run'' world_empty =
     (Completed,
      world_empty\<lparr>error_log :=
                    Some [''unknown'' @ [CHR 0x09] @ ''https://pillowcase.su/f/abc'' @
                          [CHR 0x09] @ ''No file ID found'' @ [CHR 0x0A]],
                  progress := 1\<rparr>)"
    unfolding eval_short(2) by (simp add: eval_envs eval_world_empty url_short_def)
  from eval_plain 1 eval_short eval_envs(4) [of resp_song] 2 show ?thesis
    by (intro conjI)
qed

text \<open>
  C4 as stated fails on the text of the reason, and on an error log that cannot be
  appended to: for the link \<^verbatim>\<open>https://pillowcase.su/f/abc\<close> the record appended is not
  the one with reason \<^verbatim>\<open>no file ID found\<close>, and with such an error log no record is
  appended at all.
\<close>

theorem no_identifier_reason_counterexample:
  "unwrap_pillowcase_url url_short = Some url_short \<and>
   re_search ID_PATTERN url_short = None \<and>
   error_log (snd (download_file (env_of resp_song) url_short ''downloads/run'' world_empty)) =
     Some [''unknown'' @ [CHR 0x09] @ ''https://pillowcase.su/f/abc'' @ [CHR 0x09] @
           ''No file ID found'' @ [CHR 0x0A]] \<and>
   error_log (snd (download_file (env_of resp_song) url_short ''downloads/run'' world_empty)) \<noteq>
     Some [''unknown'' @ [CHR 0x09] @ ''https://pillowcase.su/f/abc'' @ [CHR 0x09] @
           ''no file ID found'' @ [CHR 0x0A]] \<and>
   download_file (env_unloggable resp_song) url_short ''downloads/run'' world_empty =
     (Raised ''Permission denied'', world_empty\<lparr>progress := 1\<rparr>) \<and>
   error_log (snd (download_file (env_unloggable resp_song) url_short ''downloads/run''
                     world_empty)) = None"
proof -
  have d: "download_file (env_of resp_song) url_short ''downloads/run'' world_empty =
     (Completed,
      world_empty\<lparr>error_log :=
                    Some [''unknown'' @ [CHR 0x09] @ url_short @ [CHR 0x09] @
                          ''No file ID found'' @ [CHR 0x0A]],
                  progress := 1\<rparr>)"
    using download_file_no_id [OF eval_short, of "env_of resp_song" "''downloads/run''"
        world_empty]
    by (simp add: eval_envs eval_world_empty format_record_def)
  have 1: "error_log (snd (download_file (env_of resp_song) url_short ''downloads/run''
                             world_empty)) =
     Some [''unknown'' @ [CHR 0x09] @ ''https://pillowcase.su/f/abc'' @ [CHR 0x09] @
           ''No file ID found'' @ [CHR 0x0A]]"
    unfolding d by (simp add: url_short_def)
  have 2: "error_log (snd (download_file (env_of resp_song) url_short ''downloads/run''
                             world_empty)) \<noteq>
     Some [''unknown'' @ [CHR 0x09] @ ''https://pillowcase.su/f/abc'' @ [CHR 0x09] @
           ''no file ID found'' @ [CHR 0x0A]]"
    unfolding d by (simp add: url_short_def)
  have 3: "download_file (env_unloggable resp_song) url_short ''downloads/run'' world_empty =
     (Raised ''Permission denied'', world_empty\<lparr>progress := 1\<rparr>)"
    unfolding eval_short_unloggable by (simp add: eval_world_empty)
  have 4: "error_log (snd (download_file (env_unloggable resp_song) url_short ''downloads/run''
                     world_empty)) = None"
    unfolding eval_short_unloggable by (simp add: eval_world_empty)
  from eval_short 1 2 3 4 show ?thesis
    by (intro conjI)
qed

text \<open>
  C5: on a successful response (status below 400) the output filename, the value of
  \<open>filename\<close> at the end of the \<^verbatim>\<open>try\<close> block, is determined by the response headers. If
  the header \<^verbatim>\<open>content-disposition\<close> is present and contains \<^verbatim>\<open>filename=\<close>, it is the text
  after the last occurrence of that marker, stripped of surrounding whitespace and then of
  surrounding double quotes. Otherwise it is the identifier followed by \<^verbatim>\<open>.bin\<close>. When the
  output file can be opened, it is opened under that name in the output folder.
\<close>

theorem filename_from_headers:
  assumes "unwrap_pillowcase_url url = Some real_url"
    and "re_search ID_PATTERN real_url = Some identifier"
    and "get_result env (download_endpoint identifier) = Inr resp"
    and "status resp < 400"
  shows "(case headers_get (headers resp) ''content-disposition'' of
            None \<Rightarrow> fst (snd (try_block env url folder w)) = identifier @ ''.bin''
          | Some cd \<Rightarrow>
              if str_contains ''filename='' cd
              then \<exists>pre rest. cd = pre @ ''filename='' @ rest \<and>
                     \<not> str_contains ''filename='' rest \<and>
                     fst (snd (try_block env url folder w)) =
                       strip_chars is_quote (strip_chars is_space rest)
              else fst (snd (try_block env url folder w)) = identifier @ ''.bin'') \<and>
         (open_error env (path_join folder (fst (snd (try_block env url folder w)))) = None
            \<longrightarrow> opened (snd (download_file env url folder w)) =
                  opened w @ [path_join folder (fst (snd (try_block env url folder w)))])"
  unfolding try_block_filename [OF assms]
  using derive_filename_cases [of "headers resp" "identifier"] opened_download_file [OF assms]
  by simp

theorem filename_from_headers_witness:
  "unwrap_pillowcase_url url_plain = Some url_plain \<and>
   re_search ID_PATTERN url_plain = Some ''deadbeefdeadbeefdeadbeefdeadbeef'' \<and>
   get_result (env_of resp_song) (download_endpoint ''deadbeefdeadbeefdeadbeefdeadbeef'') =
     Inr resp_song \<and>
   status resp_song < 400 \<and>
   headers_get (headers resp_song) ''content-disposition'' =
     Some (''attachment; filename='' @ [CHR 0x22] @ ''song.mp3'' @ [CHR 0x22]) \<and>
   (\<exists>pre rest.
      ''attachment; filename='' @ [CHR 0x22] @ ''song.mp3'' @ [CHR 0x22] =
        pre @ ''filename='' @ rest \<and>
      \<not> str_contains ''filename='' rest \<and>
      fst (snd (try_block (env_of resp_song) url_plain ''downloads/run'' world_empty)) =
        strip_chars is_quote (strip_chars is_space rest)) \<and>
   fst (snd (try_block (env_of resp_song) url_plain ''downloads/run'' world_empty)) =
     ''song.mp3'' \<and>
   opened (snd (download_file (env_of resp_song) url_plain ''downloads/run'' world_empty)) =
     [''downloads/run/song.mp3''] \<and>
   headers_get (headers resp_bare) ''content-disposition'' = None \<and>
   fst (snd (try_block (env_of resp_bare) url_plain ''downloads/run'' world_empty)) =
     ''deadbeefdeadbeefdeadbeefdeadbeef.bin''"
proof -
  have g: "get_result (env_of resp_song) (download_endpoint ''deadbeefdeadbeefdeadbeefdeadbeef'')
             = Inr resp_song"
    "get_result (env_of resp_bare) (download_endpoint ''deadbeefdeadbeefdeadbeefdeadbeef'')
             = Inr resp_bare"
    by (simp_all add: env_of_def)
  have st: "status resp_song < 400" "status resp_bare < 400"
    by (simp_all add: resp_song_def resp_bare_def)
  have hg: "headers_get (headers resp_song) ''content-disposition'' =
              Some (''attachment; filename='' @ [CHR 0x22] @ ''song.mp3'' @ [CHR 0x22])"
    "headers_get (headers resp_bare) ''content-disposition'' = None"
    by (simp_all add: resp_song_def resp_bare_def lower_char_def)
  have c: "str_contains ''filename=''
             (''attachment; filename='' @ [CHR 0x22] @ ''song.mp3'' @ [CHR 0x22])"
    by (simp add: starts_with_def)
  have fn: "fst (snd (try_block (env_of resp_song) url_plain ''downloads/run'' world_empty)) =
              ''song.mp3''"
    using try_block_filename [OF eval_plain g(1) st(1)] by (simp add: eval_song_name)
  have op: "open_error (env_of resp_song) p = None" for p
    by (simp add: env_of_def)
  have pj: "path_join ''downloads/run'' ''song.mp3'' = ''downloads/run/song.mp3''"
    by (simp add: path_join_def starts_with_def)
  have o: "opened world_empty = []"
    by (simp add: world_empty_def)
  note a = filename_from_headers [OF eval_plain g(1) st(1), where folder = "''downloads/run''"
      and w = world_empty]
  note b = filename_from_headers [OF eval_plain g(2) st(2), where folder = "''downloads/run''"
      and w = world_empty]
  from a have a1: "\<exists>pre rest.
      ''attachment; filename='' @ [CHR 0x22] @ ''song.mp3'' @ [CHR 0x22] =
        pre @ ''filename='' @ rest \<and>
      \<not> str_contains ''filename='' rest \<and>
      fst (snd (try_block (env_of resp_song) url_plain ''downloads/run'' world_empty)) =
        strip_chars is_quote (strip_chars is_space rest)"
    unfolding hg using c by simp
  from a have a2: "opened (snd (download_file (env_of resp_song) url_plain ''downloads/run''
                     world_empty)) = [''downloads/run/song.mp3'']"
    unfolding fn pj using op o by simp
  from b have b1: "fst (snd (try_block (env_of resp_bare) url_plain ''downloads/run''
                     world_empty)) = ''deadbeefdeadbeefdeadbeefdeadbeef.bin''"
    unfolding hg by simp
  from eval_plain g(1) st(1) hg a1 fn a2 b1 show ?thesis
    by (intro conjI)
qed




section \<open>Scheduler: claims\<close>

text \<open>
  C2: whatever the input list and whatever the order in which the event loop resumes the
  tasks, after any number of steps of a run the number of tasks inside the block guarded by
  the semaphore, where alone a task issues its request, is at most
  \<open>MAX_CONCURRENT_DOWNLOADS\<close>, which is 15.
\<close>

theorem concurrency_cap:
  "count_list (states (exec envs urls folder sch (init_sched (length urls) w))) Holding
     \<le> MAX_CONCURRENT_DOWNLOADS \<and>
   MAX_CONCURRENT_DOWNLOADS = 15"
  using exec_permits [OF init_permits, of envs urls folder sch "length urls" w]
  by (simp add: MAX_CONCURRENT_DOWNLOADS_def)

theorem concurrency_cap_witness:
  "count_list (states (exec (\<lambda>i. env_of resp_song) (replicate 16 url_plain) ''downloads/run''
      [0, 1, 2, 3, 4, 5, 6, 7, 8, 9, 10, 11, 12, 13, 14, 15]
      (init_sched (length (replicate 16 url_plain)) world_empty))) Holding = 15 \<and>
   count_list (states (exec (\<lambda>i. env_of resp_song) (replicate 16 url_plain) ''downloads/run''
      [0, 1, 2, 3, 4, 5, 6, 7, 8, 9, 10, 11, 12, 13, 14, 15]
      (init_sched (length (replicate 16 url_plain)) world_empty))) Holding
     \<le> MAX_CONCURRENT_DOWNLOADS"
proof -
  have "count_list (states (exec (\<lambda>i. env_of resp_song) (replicate 16 url_plain)
      ''downloads/run'' [0, 1, 2, 3, 4, 5, 6, 7, 8, 9, 10, 11, 12, 13, 14, 15]
      (init_sched (length (replicate 16 url_plain)) world_empty))) Holding = 15"
    by (simp add: init_sched_def step_def MAX_CONCURRENT_DOWNLOADS_def eval_nat_numeral)
  with concurrency_cap [of "\<lambda>i. env_of resp_song" "replicate 16 url_plain" "''downloads/run''"
      "[0, 1, 2, 3, 4, 5, 6, 7, 8, 9, 10, 11, 12, 13, 14, 15]" world_empty]
  show ?thesis by simp
qed

text \<open>
  C7, as amended: in every run that gets past its start (the input file can be read, and
  the output directory can be created when there is work) and in which the handler of
  every task can append to the error log, \<^verbatim>\<open>main\<close> returns, and the progress counter has
  then advanced by the number of non-empty whitespace-trimmed input lines, whatever else
  the tasks observe and in whatever order they are resumed: every task reaches its end,
  no exception leaves a task, and each run of the task body advances the counter by
  exactly one, whether it ends in a written file, in a logged failure or in an exception.
\<close>

theorem progress_total:
  assumes "input_file renv = Inr content"
    and "parse_urls content = [] \<or> makedirs_error renv = None"
    and "\<forall>i < length (parse_urls content). append_error_handler (task_envs renv i) = None"
  shows "(\<exists>w'. main renv w = Inr w' \<and>
                progress w' = progress w + length (parse_urls content)) \<and>
         (\<forall>env url folder w0.
            progress (snd (download_file env url folder w0)) = progress w0 + 1) \<and>
         (\<forall>folder w1.
            states (gather (task_envs renv) (parse_urls content) folder (schedule renv) w1) =
              replicate (length (parse_urls content)) Finished \<and>
            raised (gather (task_envs renv) (parse_urls content) folder (schedule renv) w1) =
              None)"
  using main_progress [OF assms] progress_download_file gather_finishes [OF assms(3)]
    gather_raised_None [OF assms(3)]
  by simp

theorem progress_total_witness:
  "input_file (run_of input_mixed [2, 0, 0, 1]) = Inr input_mixed \<and>
   makedirs_error (run_of input_mixed [2, 0, 0, 1]) = None \<and>
   parse_urls input_mixed = [url_plain, url_junk, url_short] \<and>
   append_error_handler (task_envs (run_of input_mixed [2, 0, 0, 1]) 0) = None \<and>
   append_error_handler (task_envs (run_of input_mixed [2, 0, 0, 1]) 1) = None \<and>
   append_error_handler (task_envs (run_of input_mixed [2, 0, 0, 1]) 2) = None \<and>
   (\<exists>w'. main (run_of input_mixed [2, 0, 0, 1]) world_empty = Inr w' \<and> progress w' = 3)"
proof -
  have a: "input_file (run_of input_mixed [2, 0, 0, 1]) = Inr input_mixed"
    and b: "makedirs_error (run_of input_mixed [2, 0, 0, 1]) = None"
    and c: "append_error_handler (task_envs (run_of input_mixed [2, 0, 0, 1]) i) = None" for i
    by (simp_all add: run_of_def eval_envs)
  have p: "progress world_empty = 0"
    by (simp add: world_empty_def)
  have h: "\<forall>i < length (parse_urls input_mixed).
             append_error_handler (task_envs (run_of input_mixed [2, 0, 0, 1]) i) = None"
    using c by simp
  note t = progress_total [OF a disjI2 [OF b] h, of world_empty, THEN conjunct1]
  have l: "progress world_empty + length (parse_urls input_mixed) = 3"
    unfolding p eval_input_mixed by simp
  from t have e: "\<exists>w'. main (run_of input_mixed [2, 0, 0, 1]) world_empty = Inr w' \<and>
                       progress w' = 3"
    unfolding l .
  from a b eval_input_mixed c [of 0] c [of 1] c [of 2] e show ?thesis
    by (intro conjI)
qed

text \<open>
  C7 as stated fails when the error log cannot be appended to: of two canonical links
  answered 404, the first task to get its answer advances the counter and raises, \<^verbatim>\<open>main\<close>
  ends with that exception, and the counter has advanced by one, not by two.
\<close>

theorem progress_short_counterexample:
  "input_file run_unloggable = Inr input_two \<and>
   makedirs_error run_unloggable = None \<and>
   parse_urls input_two = [url_plain, url_plain] \<and>
   main run_unloggable world_empty = Inl ''Permission denied'' \<and>
   progress (sworld (gather (task_envs run_unloggable) (parse_urls input_two)
                       (path_join BASE_DOWNLOAD_FOLDER (timestamp run_unloggable))
                       (schedule run_unloggable)
                       (makedirs (path_join BASE_DOWNLOAD_FOLDER (timestamp run_unloggable))
                          world_empty))) = 1 \<and>
   length (parse_urls input_two) = 2"
proof -
  have a: "input_file run_unloggable = Inr input_two"
    and b: "makedirs_error run_unloggable = None"
    and c: "task_envs run_unloggable = (\<lambda>i. env_unloggable resp_404)"
    and d: "schedule run_unloggable = [0, 1, 0]"
    by (simp_all add: run_unloggable_def run_of_def)
  have p: "progress (sworld (gather (task_envs run_unloggable) (parse_urls input_two)
                       (path_join BASE_DOWNLOAD_FOLDER (timestamp run_unloggable))
                       (schedule run_unloggable)
                       (makedirs (path_join BASE_DOWNLOAD_FOLDER (timestamp run_unloggable))
                          world_empty))) = 1"
    unfolding c d eval_input_two eval_gather_unloggable(2)
    by (simp add: makedirs_def eval_world_empty)
  have l: "length (parse_urls input_two) = 2"
    unfolding eval_input_two by simp
  from a b eval_input_two eval_run_unloggable p l show ?thesis
    by (intro conjI)
qed

text \<open>
  C8: if the input file yields no non-empty whitespace-trimmed line, \<^verbatim>\<open>main\<close> returns
  normally and has done nothing but print \<^verbatim>\<open>No URLs found.\<close>: no directory is created, no
  request is made, no file is opened, and the error log and the progress counter are
  untouched.
\<close>

theorem no_work:
  assumes "input_file renv = Inr content" and "parse_urls content = []"
  shows "main renv w = Inr (w\<lparr>stdout := stdout w @ [''No URLs found.'']\<rparr>)"
  using assms by (rule main_no_urls)

theorem no_work_witness:
  "input_file (run_of (''  '' @ [CHR 0x0A, CHR 0x0D, CHR 0x0A]) [0]) =
     Inr (''  '' @ [CHR 0x0A, CHR 0x0D, CHR 0x0A]) \<and>
   parse_urls (''  '' @ [CHR 0x0A, CHR 0x0D, CHR 0x0A]) = [] \<and>
   main (run_of (''  '' @ [CHR 0x0A, CHR 0x0D, CHR 0x0A]) [0]) world_empty =
     Inr (world_empty\<lparr>stdout := [''No URLs found.'']\<rparr>) \<and>
   dirs (world_empty\<lparr>stdout := [''No URLs found.'']\<rparr>) = {}"
proof -
  have a: "input_file (run_of (''  '' @ [CHR 0x0A, CHR 0x0D, CHR 0x0A]) [0]) =
             Inr (''  '' @ [CHR 0x0A, CHR 0x0D, CHR 0x0A])"
    by (simp add: run_of_def)
  have b: "parse_urls (''  '' @ [CHR 0x0A, CHR 0x0D, CHR 0x0A]) = []"
    by (simp add: parse_urls_Nil_iff is_space_def)
  have c: "stdout world_empty = []" "dirs world_empty = {}"
    by (simp_all add: world_empty_def)
  from no_work [OF a b, of world_empty] a b c
  show ?thesis by simp
qed

end
